theory Spec2Isabelle
  imports Complex_Main
begin

section \<open>Scattering objects on a terrain: the scene and the host\<close>

text \<open>
  The repository holds two variants of one Blender script, each with its own
  \<^verbatim>\<open>scatter_on_terrain\<close>: the variant that copies a template together with its children
  (it has \<^verbatim>\<open>copy_with_children\<close>, a \<^verbatim>\<open>use_vgroup\<close> switch and a check of the terrain's
  type), and the variant under \<^verbatim>\<open>scripts/\<close> that copies the template object alone. The
  helpers \<^verbatim>\<open>get_or_create_collection\<close>, \<^verbatim>\<open>clear_collection\<close>, \<^verbatim>\<open>raycast_to_terrain\<close> and
  \<^verbatim>\<open>vgroup_weight_at_face_avg\<close> are the same in both.

  Numbers are Python floats in the source and real numbers here. The scene lives in
  Blender; what the scripts read and write of it is the record \<open>world\<close> below.
\<close>

subsection \<open>Data\<close>

type_synonym vec3 = "real \<times> real \<times> real"

text \<open>
  Blender keeps the objects of a file under unique names, a base and a numeric suffix:
  \<^verbatim>\<open>tree\<close> is \<open>(''tree'', 0)\<close> and \<^verbatim>\<open>tree.001\<close> is \<open>(''tree'', 1)\<close>. A Python reference to
  an object is modelled by that name; a reference to a removed object finds nothing, and
  reading an attribute through it raises \<^verbatim>\<open>ReferenceError\<close>.
\<close>

type_synonym obj_name = "string \<times> nat"

datatype error =
    RuntimeError string
  | ReferenceError
  | AttributeError
  | IndexError
  | RecursionError

record mesh =
  vertices :: "vec3 list"
  polygons :: "nat list list"

text \<open>
  A vertex group is the association of vertex indices with weights; a vertex that is not
  in the list is not assigned to the group. \<^verbatim>\<open>matrix_basis\<close> is Blender's matrix of an
  object's own location, rotation and scale, so it is read and written as these three.
\<close>

record obj =
  obj_type :: string
  parent :: "obj_name option"
  location :: vec3
  rotation_euler :: vec3
  scale :: vec3
  matrix_parent_inverse :: "real list"
  data :: "mesh option"
  vertex_groups :: "(string \<times> (nat \<times> real) list) list"

definition matrix_basis :: "obj \<Rightarrow> vec3 \<times> vec3 \<times> vec3" where
  "matrix_basis ob = (location ob, rotation_euler ob, scale ob)"

definition set_matrix_basis :: "vec3 \<times> vec3 \<times> vec3 \<Rightarrow> obj \<Rightarrow> obj" where
  "set_matrix_basis m ob =
     ob\<lparr>location := fst m, rotation_euler := fst (snd m), scale := snd (snd m)\<rparr>"

text \<open>
  \<open>objects\<close> is \<^verbatim>\<open>bpy.data.objects\<close>, \<open>collections\<close> is \<^verbatim>\<open>bpy.data.collections\<close> with
  the \<^verbatim>\<open>objects\<close> of each collection, \<open>scene_children\<close> is
  \<^verbatim>\<open>bpy.context.scene.collection.children\<close>, and \<open>rng\<close> counts the draws taken from
  Python's global random generator.
\<close>

record world =
  objects :: "(obj_name \<times> obj) list"
  collections :: "(string \<times> obj_name list) list"
  scene_children :: "string list"
  rng :: nat

text \<open>
  What the scripts call and do not define: \<^verbatim>\<open>scene.ray_cast\<close> (the nearest hit of a ray
  in the scene as it is at the call: location, face index and object hit),
  \<^verbatim>\<open>random.random\<close> (the sequence of draws from the unit interval that the seed fixes)
  and the number of nested calls Python allows before it raises \<^verbatim>\<open>RecursionError\<close>.
\<close>

record host =
  ray_cast :: "world \<Rightarrow> vec3 \<Rightarrow> vec3 \<Rightarrow> (vec3 \<times> nat \<times> obj_name) option"
  random :: "nat \<Rightarrow> real"
  recursion_limit :: nat

record request =
  source_obj_name :: obj_name
  target_collection_name :: string
  count :: int
  area :: real
  z_start :: real
  min_scale :: real
  max_scale :: real
  use_vgroup :: bool
  path_threshold :: real
  min_distance :: real

text \<open>
  The name as Blender writes it, for the messages: the base alone for the suffix 0, else
  the base, a dot and the suffix in at least three digits.
\<close>

fun dec :: "nat \<Rightarrow> string" where
  "dec n = (if n < 10 then [char_of (48 + n)] else dec (n div 10) @ [char_of (48 + n mod 10)])"

definition name_str :: "obj_name \<Rightarrow> string" where
  "name_str nm =
     (case nm of (b, n) \<Rightarrow>
        if n = 0 then b else b @ ''.'' @ replicate (3 - length (dec n)) (CHR ''0'') @ dec n)"

definition terrain_name :: obj_name where
  "terrain_name = (''Plane'', 0)"

definition no_trees_vgroup :: string where
  "no_trees_vgroup = ''NoTrees''"

subsection \<open>Vectors and random numbers\<close>

definition vsub :: "vec3 \<Rightarrow> vec3 \<Rightarrow> vec3" where
  "vsub a b = (case a of (ax, ay, az) \<Rightarrow> case b of (bx, by, bz) \<Rightarrow> (ax - bx, ay - by, az - bz))"

definition vlength :: "vec3 \<Rightarrow> real" where
  "vlength a = (case a of (x, y, z) \<Rightarrow> sqrt (x * x + y * y + z * z))"

definition radians :: "real \<Rightarrow> real" where
  "radians d = d * pi / 180"

text \<open>\<^verbatim>\<open>random.uniform(a, b)\<close> is \<^verbatim>\<open>a + (b - a) * random()\<close>; it takes one draw.\<close>

definition uniform :: "host \<Rightarrow> real \<Rightarrow> real \<Rightarrow> world \<Rightarrow> real \<times> world" where
  "uniform h a b w = (a + (b - a) * random h (rng w), w\<lparr>rng := Suc (rng w)\<rparr>)"

subsection \<open>Objects and collections of the scene\<close>

definition deref :: "obj_name \<Rightarrow> world \<Rightarrow> obj option" where
  "deref n w = map_of (objects w) n"

text \<open>\<^verbatim>\<open>bpy.data.objects.get(name)\<close>: the reference, or \<^verbatim>\<open>None\<close>.\<close>

definition objects_get :: "obj_name \<Rightarrow> world \<Rightarrow> obj_name option" where
  "objects_get n w = (case deref n w of None \<Rightarrow> None | Some _ \<Rightarrow> Some n)"

definition obj_update :: "obj_name \<Rightarrow> (obj \<Rightarrow> obj) \<Rightarrow> world \<Rightarrow> world" where
  "obj_update n f w =
     w\<lparr>objects := map (\<lambda>(k, ob). if k = n then (k, f ob) else (k, ob)) (objects w)\<rparr>"

text \<open>
  The name Blender gives a copy: the base of the source's name with the least suffix from
  1 on that no object has.
\<close>

fun first_free :: "obj_name list \<Rightarrow> string \<Rightarrow> nat \<Rightarrow> nat \<Rightarrow> nat" where
  "first_free used b n 0 = n"
| "first_free used b n (Suc k) =
     (if (b, n) \<in> set used then first_free used b (Suc n) k else n)"

definition unique_name :: "obj_name list \<Rightarrow> obj_name \<Rightarrow> obj_name" where
  "unique_name used nm = (fst nm, first_free used (fst nm) 1 (length used))"

text \<open>
  \<^verbatim>\<open>src_obj.copy()\<close>: a new object with the attributes of the source (its parent and its
  mesh data included), in no collection.
\<close>

definition obj_copy :: "obj_name \<Rightarrow> world \<Rightarrow> (error + obj_name) \<times> world" where
  "obj_copy src w =
     (case deref src w of
        None \<Rightarrow> (Inl ReferenceError, w)
      | Some ob \<Rightarrow>
          (let new_obj = unique_name (map fst (objects w)) src
           in (Inr new_obj, w\<lparr>objects := objects w @ [(new_obj, ob)]\<rparr>)))"

text \<open>\<^verbatim>\<open>obj.children\<close>: the objects of the file whose parent is \<open>n\<close>.\<close>

definition children :: "obj_name \<Rightarrow> world \<Rightarrow> obj_name list" where
  "children n w = map fst (filter (\<lambda>(k, ob). parent ob = Some n) (objects w))"

definition col_objects :: "string \<Rightarrow> world \<Rightarrow> obj_name list" where
  "col_objects c w = (case map_of (collections w) c of None \<Rightarrow> [] | Some ms \<Rightarrow> ms)"

text \<open>
  \<^verbatim>\<open>col.objects.link(obj)\<close>; Blender raises \<^verbatim>\<open>RuntimeError\<close> when the object is in the
  collection already.
\<close>

definition objects_link :: "string \<Rightarrow> obj_name \<Rightarrow> world \<Rightarrow> (error + unit) \<times> world" where
  "objects_link c n w =
     (if n \<in> set (col_objects c w) then (Inl (RuntimeError ''already in collection''), w)
      else (Inr (),
            w\<lparr>collections :=
                map (\<lambda>(k, ms). if k = c then (k, ms @ [n]) else (k, ms)) (collections w)\<rparr>))"

text \<open>
  \<^verbatim>\<open>bpy.data.objects.remove(obj, do_unlink=True)\<close>: the object leaves the file and every
  collection, and the objects it was the parent of have no parent any more.
\<close>

definition objects_remove :: "obj_name \<Rightarrow> world \<Rightarrow> world" where
  "objects_remove n w =
     w\<lparr>objects :=
         map (\<lambda>(k, ob). (k, if parent ob = Some n then ob\<lparr>parent := None\<rparr> else ob))
           (filter (\<lambda>(k, ob). k \<noteq> n) (objects w)),
       collections := map (\<lambda>(k, ms). (k, filter (\<lambda>m. m \<noteq> n) ms)) (collections w)\<rparr>"

subsection \<open>The helpers of the scripts\<close>

definition get_or_create_collection :: "string \<Rightarrow> world \<Rightarrow> string \<times> world" where
  "get_or_create_collection name w =
     (case map_of (collections w) name of
        Some _ \<Rightarrow> (name, w)
      | None \<Rightarrow>
          (name, w\<lparr>collections := collections w @ [(name, [])],
                   scene_children := scene_children w @ [name]\<rparr>))"

definition get_collection :: "string \<Rightarrow> world \<Rightarrow> string option" where
  "get_collection name w =
     (case map_of (collections w) name of None \<Rightarrow> None | Some _ \<Rightarrow> Some name)"

definition clear_collection :: "string option \<Rightarrow> world \<Rightarrow> world" where
  "clear_collection col w =
     (case col of
        None \<Rightarrow> w
      | Some c \<Rightarrow> fold objects_remove (col_objects c w) w)"

text \<open>
  \<^verbatim>\<open>raycast_to_terrain\<close>: the ray goes straight down from \<open>(x, y, z_start)\<close>; the hit
  counts when the object hit has the terrain's name. The names are compared only after a
  hit, so a removed terrain raises only then.
\<close>

definition raycast_to_terrain ::
  "host \<Rightarrow> obj_name \<Rightarrow> real \<Rightarrow> real \<Rightarrow> real \<Rightarrow> world \<Rightarrow> error + (vec3 \<times> nat) option" where
  "raycast_to_terrain h terrain x y z w =
     (case ray_cast h w (x, y, z) (0, 0, - 1) of
        None \<Rightarrow> Inr None
      | Some (loc, face_index, hit_obj) \<Rightarrow>
          (case deref terrain w of
             None \<Rightarrow> Inl ReferenceError
           | Some _ \<Rightarrow> if hit_obj = terrain then Inr (Some (loc, face_index)) else Inr None))"

text \<open>
  \<^verbatim>\<open>vgroup_weight_at_face_avg\<close>: \<^verbatim>\<open>vg.weight(vid)\<close> raises \<^verbatim>\<open>RuntimeError\<close> for a vertex
  that is not in the group, and the loop catches it.
\<close>

definition vertex_weight :: "(nat \<times> real) list \<Rightarrow> nat \<Rightarrow> real" where
  "vertex_weight vg vid = (case map_of vg vid of None \<Rightarrow> 0 | Some wt \<Rightarrow> wt)"

definition vgroup_weight_at_face_avg :: "obj_name \<Rightarrow> string \<Rightarrow> nat \<Rightarrow> world \<Rightarrow> error + real" where
  "vgroup_weight_at_face_avg terrain vgroup_name face_index w =
     (case deref terrain w of
        None \<Rightarrow> Inl ReferenceError
      | Some t \<Rightarrow>
          (case map_of (vertex_groups t) vgroup_name of
             None \<Rightarrow> Inr 0
           | Some vg \<Rightarrow>
               (case data t of
                  None \<Rightarrow> Inl AttributeError
                | Some me \<Rightarrow>
                    if face_index < length (polygons me) then
                      (let weights = map (vertex_weight vg) (polygons me ! face_index)
                       in Inr (if weights \<noteq> [] then sum_list weights / real (length weights)
                               else 0))
                    else Inl IndexError)))"

subsection \<open>Copying the template\<close>

text \<open>
  \<^verbatim>\<open>copy_with_children\<close>: the copy is linked to the target collection, then every child of
  the source is copied in the same way and the copy of the child gets the new object as
  parent and the child's own \<^verbatim>\<open>matrix_parent_inverse\<close> and \<^verbatim>\<open>matrix_basis\<close>. The children
  are read once, before the loop over them. The first argument counts the nested calls
  that are still allowed.
\<close>

fun copy_with_children :: "nat \<Rightarrow> obj_name \<Rightarrow> string \<Rightarrow> world \<Rightarrow> (error + obj_name) \<times> world"
  and copy_children ::
    "nat \<Rightarrow> obj_name list \<Rightarrow> obj_name \<Rightarrow> string \<Rightarrow> world \<Rightarrow> (error + unit) \<times> world"
where
  "copy_with_children 0 src_obj target_collection w = (Inl RecursionError, w)"
| "copy_with_children (Suc d) src_obj target_collection w =
     (case obj_copy src_obj w of
        (Inl e, w1) \<Rightarrow> (Inl e, w1)
      | (Inr new_obj, w1) \<Rightarrow>
          (case objects_link target_collection new_obj w1 of
             (Inl e, w2) \<Rightarrow> (Inl e, w2)
           | (Inr _, w2) \<Rightarrow>
               (case copy_children d (children src_obj w2) new_obj target_collection w2 of
                  (Inl e, w3) \<Rightarrow> (Inl e, w3)
                | (Inr _, w3) \<Rightarrow> (Inr new_obj, w3))))"
| "copy_children d [] new_obj target_collection w = (Inr (), w)"
| "copy_children d (child # rest) new_obj target_collection w =
     (case copy_with_children d child target_collection w of
        (Inl e, w1) \<Rightarrow> (Inl e, w1)
      | (Inr new_child, w1) \<Rightarrow>
          (case deref child w1 of
             None \<Rightarrow> (Inl ReferenceError, w1)
           | Some c \<Rightarrow>
               copy_children d rest new_obj target_collection
                 (obj_update new_child
                    (\<lambda>ob. set_matrix_basis (matrix_basis c)
                            (ob\<lparr>parent := Some new_obj,
                                matrix_parent_inverse := matrix_parent_inverse c\<rparr>))
                    w1)))"

text \<open>
  What the loop of \<^verbatim>\<open>scatter_on_terrain\<close> does with an accepted location. Both variants
  return the new object with the yaw in degrees and the scale factor they drew.

  The variant with children: \<^verbatim>\<open>copy_with_children\<close>, then location, yaw and scale of the
  object it returns.
\<close>

definition place_with_children ::
  "host \<Rightarrow> request \<Rightarrow> obj_name \<Rightarrow> string \<Rightarrow> vec3 \<Rightarrow> world
     \<Rightarrow> (error + obj_name \<times> real \<times> real) \<times> world" where
  "place_with_children h r src col loc w =
     (case copy_with_children (recursion_limit h) src col w of
        (Inl e, w1) \<Rightarrow> (Inl e, w1)
      | (Inr new_obj, w1) \<Rightarrow>
          (let w2 = obj_update new_obj (\<lambda>ob. ob\<lparr>location := loc\<rparr>) w1;
               (yaw, w3) = uniform h 0 360 w2;
               w4 = obj_update new_obj
                      (\<lambda>ob. ob\<lparr>rotation_euler :=
                                 (fst (rotation_euler ob), fst (snd (rotation_euler ob)),
                                  radians yaw)\<rparr>) w3;
               (s, w5) = uniform h (min_scale r) (max_scale r) w4;
               w6 = obj_update new_obj (\<lambda>ob. ob\<lparr>scale := (s, s, s)\<rparr>) w5
           in (Inr (new_obj, yaw, s), w6)))"

text \<open>
  The variant under \<^verbatim>\<open>scripts/\<close>: a copy of the object alone, with a copy of its mesh
  data when it has some (the copy of a mesh has the content of the mesh), then location,
  yaw and scale, and the link to the collection last.
\<close>

definition place_single ::
  "host \<Rightarrow> request \<Rightarrow> obj_name \<Rightarrow> string \<Rightarrow> vec3 \<Rightarrow> world
     \<Rightarrow> (error + obj_name \<times> real \<times> real) \<times> world" where
  "place_single h r src col loc w =
     (case obj_copy src w of
        (Inl e, w1) \<Rightarrow> (Inl e, w1)
      | (Inr new_obj, w1) \<Rightarrow>
          (case deref src w1 of
             None \<Rightarrow> (Inl ReferenceError, w1)
           | Some s_ob \<Rightarrow>
               (let w1' = (case data s_ob of
                             None \<Rightarrow> w1
                           | Some me \<Rightarrow> obj_update new_obj (\<lambda>ob. ob\<lparr>data := Some me\<rparr>) w1);
                    w2 = obj_update new_obj (\<lambda>ob. ob\<lparr>location := loc\<rparr>) w1';
                    (yaw, w3) = uniform h 0 360 w2;
                    w4 = obj_update new_obj
                           (\<lambda>ob. ob\<lparr>rotation_euler :=
                                      (fst (rotation_euler ob), fst (snd (rotation_euler ob)),
                                       radians yaw)\<rparr>) w3;
                    (s, w5) = uniform h (min_scale r) (max_scale r) w4;
                    w6 = obj_update new_obj (\<lambda>ob. ob\<lparr>scale := (s, s, s)\<rparr>) w5
                in (case objects_link col new_obj w6 of
                      (Inl e, w7) \<Rightarrow> (Inl e, w7)
                    | (Inr _, w7) \<Rightarrow> (Inr (new_obj, yaw, s), w7)))))"

subsection \<open>The sampling loop\<close>

text \<open>
  The variables of the loop are \<open>placed_positions\<close>, \<open>placed\<close> and \<open>tries\<close>. \<open>accepted\<close> is
  the history of the run, which the source does not keep: for every accepted candidate
  the object made for it, the location and the face of the hit, and the yaw and the scale
  drawn. Nothing in the loop reads it.
\<close>

record placement =
  p_root :: obj_name
  p_location :: vec3
  p_face :: nat
  p_yaw :: real
  p_scale :: real

record loop_state =
  placed_positions :: "vec3 list"
  placed :: int
  tries :: int
  accepted :: "placement list"

type_synonym placer =
  "obj_name \<Rightarrow> string \<Rightarrow> vec3 \<Rightarrow> world \<Rightarrow> (error + obj_name \<times> real \<times> real) \<times> world"

text \<open>
  The weight test of an iteration: \<open>Inr True\<close> when the candidate is on the forbidden zone.
  The variant under \<^verbatim>\<open>scripts/\<close> has no switch and always tests.
\<close>

definition on_path :: "request \<Rightarrow> obj_name \<Rightarrow> nat \<Rightarrow> world \<Rightarrow> error + bool" where
  "on_path r terrain face_index w =
     (if use_vgroup r then
        (case vgroup_weight_at_face_avg terrain no_trees_vgroup face_index w of
           Inl e \<Rightarrow> Inl e
         | Inr wt \<Rightarrow> Inr (wt > path_threshold r))
      else Inr False)"

definition too_close :: "request \<Rightarrow> vec3 \<Rightarrow> vec3 list \<Rightarrow> bool" where
  "too_close r loc ps = list_ex (\<lambda>p. vlength (vsub loc p) < min_distance r) ps"

text \<open>The body of the loop after \<^verbatim>\<open>tries += 1\<close>.\<close>

definition scatter_body ::
  "host \<Rightarrow> placer \<Rightarrow> request \<Rightarrow> obj_name \<Rightarrow> obj_name \<Rightarrow> string \<Rightarrow> loop_state \<Rightarrow> world
     \<Rightarrow> (error + loop_state) \<times> world" where
  "scatter_body h place r terrain src col st w =
     (let (x, w1) = uniform h (- area r) (area r) w;
          (y, w2) = uniform h (- area r) (area r) w1
      in case raycast_to_terrain h terrain x y (z_start r) w2 of
           Inl e \<Rightarrow> (Inl e, w2)
         | Inr None \<Rightarrow> (Inr st, w2)
         | Inr (Some (loc, face_index)) \<Rightarrow>
             (case on_path r terrain face_index w2 of
                Inl e \<Rightarrow> (Inl e, w2)
              | Inr True \<Rightarrow> (Inr st, w2)
              | Inr False \<Rightarrow>
                  if min_distance r > 0 \<and> too_close r loc (placed_positions st)
                  then (Inr st, w2)
                  else
                    (let st1 = (if min_distance r > 0
                                then st\<lparr>placed_positions := placed_positions st @ [loc]\<rparr>
                                else st)
                     in case place src col loc w2 of
                          (Inl e, w3) \<Rightarrow> (Inl e, w3)
                        | (Inr (new_obj, yaw, s), w3) \<Rightarrow>
                            (Inr (st1\<lparr>placed := placed st1 + 1,
                                      accepted := accepted st1 @
                                        [\<lparr>p_root = new_obj, p_location = loc,
                                          p_face = face_index, p_yaw = yaw, p_scale = s\<rparr>]\<rparr>),
                             w3))))"

lemma scatter_body_tries:
  "scatter_body h place r terrain src col st w = (Inr st', w') \<Longrightarrow> tries st' = tries st"
  by (auto simp: scatter_body_def Let_def split: prod.splits sum.splits option.splits
      bool.splits if_splits)

function scatter_loop ::
  "host \<Rightarrow> placer \<Rightarrow> request \<Rightarrow> obj_name \<Rightarrow> obj_name \<Rightarrow> string \<Rightarrow> int \<Rightarrow> loop_state \<Rightarrow> world
     \<Rightarrow> (error + loop_state) \<times> world" where
  "scatter_loop h place r terrain src col max_tries st w =
     (if placed st < count r \<and> tries st < max_tries then
        (case scatter_body h place r terrain src col (st\<lparr>tries := tries st + 1\<rparr>) w of
           (Inl e, w') \<Rightarrow> (Inl e, w')
         | (Inr st', w') \<Rightarrow> scatter_loop h place r terrain src col max_tries st' w')
      else (Inr st, w))"
  by pat_completeness auto
termination
proof (relation "measure (\<lambda>(h, place, r, terrain, src, col, max_tries, st, w).
                   nat (max_tries - tries st))", goal_cases)
  case 1
  show ?case by simp
next
  case (2 h place r terrain src col max_tries st w res w' st')
  from 2(2,3) have "tries st' = tries st + 1"
    using scatter_body_tries [of h place r terrain src col "st\<lparr>tries := tries st + 1\<rparr>" w st' w']
    by simp
  with 2(1) show ?case by simp
qed

declare scatter_loop.simps [simp del]

subsection \<open>The two variants of the run\<close>

definition start_state :: loop_state where
  "start_state = \<lparr>placed_positions = [], placed = 0, tries = 0, accepted = []\<rparr>"

text \<open>
  \<open>scatter_run\<close> is \<^verbatim>\<open>scatter_on_terrain\<close> of the variant with children up to the
  \<^verbatim>\<open>return\<close>; it gives the variables of the loop as they are then.
\<close>

definition scatter_run :: "host \<Rightarrow> request \<Rightarrow> world \<Rightarrow> (error + loop_state) \<times> world" where
  "scatter_run h r w =
     (case objects_get terrain_name w of
        None \<Rightarrow> (Inl (RuntimeError ''Terrain not found''), w)
      | Some terrain \<Rightarrow>
          (case deref terrain w of
             None \<Rightarrow> (Inl ReferenceError, w)
           | Some t \<Rightarrow>
               if obj_type t \<noteq> ''MESH'' then (Inl (RuntimeError ''Terrain must be mesh''), w)
               else
                 (case objects_get (source_obj_name r) w of
                    None \<Rightarrow> (Inl (RuntimeError ''Source object not found''), w)
                  | Some src \<Rightarrow>
                      if max_scale r < min_scale r
                      then (Inl (RuntimeError ''Invalid scale range''), w)
                      else
                        (let (col, w1) = get_or_create_collection (target_collection_name r) w;
                             w2 = clear_collection (Some col) w1
                         in scatter_loop h (place_with_children h r) r terrain src col
                              (count r * 40) start_state w2))))"

definition scatter_on_terrain :: "host \<Rightarrow> request \<Rightarrow> world \<Rightarrow> (error + int \<times> int) \<times> world" where
  "scatter_on_terrain h r w =
     (case scatter_run h r w of
        (Inl e, w') \<Rightarrow> (Inl e, w')
      | (Inr st, w') \<Rightarrow> (Inr (placed st, tries st), w'))"

text \<open>
  The variant under \<^verbatim>\<open>scripts/\<close>: no check of the terrain's type, the weight test in
  every iteration, and the copy of the template object alone.
\<close>

definition scatter_run_single :: "host \<Rightarrow> request \<Rightarrow> world \<Rightarrow> (error + loop_state) \<times> world" where
  "scatter_run_single h r w =
     (case objects_get terrain_name w of
        None \<Rightarrow>
          (Inl (RuntimeError (''Terrain '' @ [CHR 0x27] @ name_str terrain_name @ [CHR 0x27] @
                              '' not found.'')), w)
      | Some terrain \<Rightarrow>
          (case objects_get (source_obj_name r) w of
             None \<Rightarrow>
               (Inl (RuntimeError (''Source object '' @ [CHR 0x27] @
                                   name_str (source_obj_name r) @ [CHR 0x27] @
                                   '' not found.'')), w)
           | Some src \<Rightarrow>
               if max_scale r < min_scale r
               then (Inl (RuntimeError ''Max scale must be >= Min scale.''), w)
               else
                 (let (col, w1) = get_or_create_collection (target_collection_name r) w;
                      w2 = clear_collection (Some col) w1
                  in scatter_loop h (place_single h r) (r\<lparr>use_vgroup := True\<rparr>) terrain src col
                       (count r * 40) start_state w2)))"

definition scatter_on_terrain_single ::
  "host \<Rightarrow> request \<Rightarrow> world \<Rightarrow> (error + int \<times> int) \<times> world" where
  "scatter_on_terrain_single h r w =
     (case scatter_run_single h r w of
        (Inl e, w') \<Rightarrow> (Inl e, w')
      | (Inr st, w') \<Rightarrow> (Inr (placed st, tries st), w'))"

section \<open>A small scene and host for evaluation\<close>

text \<open>
  The host used in the examples casts its rays against the objects of the collections
  linked to the scene, each taken as the disc that bounds its mesh, at the height of the
  mesh's top, moved to the object's location and scaled by the object's scale (a disc
  does not depend on the yaw). The nearest hit of a ray that goes down is the highest
  such disc at or below the origin of the ray. An object without mesh data is not hit.
  The host takes the location of an object as its place in the world, which it is for an
  object without a parent; the one child in the examples has no mesh.
\<close>

definition mesh_top :: "mesh \<Rightarrow> real" where
  "mesh_top me = fold (\<lambda>v m. max (snd (snd v)) m) (vertices me) 0"

definition mesh_radius2 :: "mesh \<Rightarrow> real" where
  "mesh_radius2 me = fold (\<lambda>v m. max (fst v * fst v + fst (snd v) * fst (snd v)) m) (vertices me) 0"

definition in_scene :: "obj_name \<Rightarrow> world \<Rightarrow> bool" where
  "in_scene n w = list_ex (\<lambda>c. n \<in> set (col_objects c w)) (scene_children w)"

definition disk_hit :: "vec3 \<Rightarrow> obj \<Rightarrow> real option" where
  "disk_hit origin ob =
     (case data ob of
        None \<Rightarrow> None
      | Some me \<Rightarrow>
          (case origin of (x, y, z) \<Rightarrow> case location ob of (lx, ly, lz) \<Rightarrow>
           case scale ob of (sx, sy, sz) \<Rightarrow>
             (let zt = lz + sz * mesh_top me
              in if (x - lx) * (x - lx) + (y - ly) * (y - ly) \<le> sx * sx * mesh_radius2 me \<and> zt \<le> z
                 then Some zt else None)))"

definition disk_cast :: "world \<Rightarrow> vec3 \<Rightarrow> vec3 \<Rightarrow> (vec3 \<times> nat \<times> obj_name) option" where
  "disk_cast w origin direction =
     fold (\<lambda>(k, ob) best.
             if in_scene k w then
               (case disk_hit origin ob of
                  None \<Rightarrow> best
                | Some zt \<Rightarrow>
                    (case best of
                       None \<Rightarrow> Some ((fst origin, fst (snd origin), zt), 0, k)
                     | Some ((bx, by, bz), bf, bk) \<Rightarrow>
                         if bz < zt then Some ((fst origin, fst (snd origin), zt), 0, k) else best))
             else best)
       (objects w) None"

definition plane_obj :: obj where
  "plane_obj = \<lparr>obj_type = ''MESH'', parent = None, location = (0, 0, 0), rotation_euler = (0, 0, 0),
            scale = (1, 1, 1), matrix_parent_inverse = [],
            data = Some \<lparr>vertices = [(-10, -10, 0), (10, -10, 0), (10, 10, 0), (-10, 10, 0)],
                         polygons = [[0, 1, 2, 3]]\<rparr>,
            vertex_groups = [(''NoTrees'', [(0, 1)])]\<rparr>"

definition tree_obj :: obj where
  "tree_obj = \<lparr>obj_type = ''MESH'', parent = None, location = (50, 50, 0), rotation_euler = (0, 0, 0),
            scale = (1, 1, 1), matrix_parent_inverse = [],
            data = Some \<lparr>vertices = [(0, 0, 0), (1/2, 0, 0), (0, 0, 2)],
                         polygons = [[0, 1, 2]]\<rparr>,
            vertex_groups = []\<rparr>"

definition crown_obj :: obj where
  "crown_obj = \<lparr>obj_type = ''EMPTY'', parent = Some (''tree'', 0), location = (0, 0, 1), rotation_euler = (0, 0, 0),
            scale = (2, 2, 2), matrix_parent_inverse = [1,0,0,0, 0,1,0,0, 0,0,1,0, 0,0,0,1],
            data = None,
            vertex_groups = []\<rparr>"

definition world0 :: world where
  "world0 = \<lparr>objects = [((''Plane'', 0), plane_obj), ((''tree'', 0), tree_obj), ((''crown'', 0), crown_obj)],
             collections = [(''Collection'', [(''Plane'', 0), (''tree'', 0), (''crown'', 0)])],
             scene_children = [''Collection''], rng = 0\<rparr>"

definition draws :: "real list \<Rightarrow> nat \<Rightarrow> real" where
  "draws us n = (if n < length us then us ! n else 1/2)"

definition host0 :: "real list \<Rightarrow> host" where
  "host0 us = \<lparr>ray_cast = disk_cast, random = draws us, recursion_limit = 1000\<rparr>"

definition req0 :: request where
  "req0 = \<lparr>source_obj_name = (''tree'', 0), target_collection_name = ''Generated_Trees'',
     count = 2, area = 6, z_start = 1000, min_scale = 7/10, max_scale = 12/10, use_vgroup = True,
     path_threshold = 1/2, min_distance = 3/2\<rparr>"

section \<open>Evaluation\<close>

text \<open>
  The comparison of a length with a distance, without the square root, so that the loop
  can be evaluated; \<open>radians\<close> stays as it is in evaluated terms.
\<close>

lemma vlength_less_iff: "vlength (x, y, z) < d \<longleftrightarrow> 0 < d \<and> x * x + y * y + z * z < d * d"
proof -
  have nn: "0 \<le> x * x + y * y + z * z" by simp
  show ?thesis
  proof (cases "0 < d")
    case True
    then have "sqrt (x * x + y * y + z * z) < d \<longleftrightarrow> x * x + y * y + z * z < d\<^sup>2"
      using nn by (metis real_sqrt_less_iff real_sqrt_abs abs_of_pos real_sqrt_power power2_eq_square real_sqrt_mult_self)
    then show ?thesis using True by (simp add: vlength_def power2_eq_square)
  next
    case False
    then have "\<not> sqrt (x * x + y * y + z * z) < d"
      using nn by (smt (verit) real_sqrt_ge_zero)
    then show ?thesis using False by (simp add: vlength_def)
  qed
qed

lemma too_close_code [code]:
  "too_close r loc ps =
     list_ex (\<lambda>p. case vsub loc p of (x, y, z) \<Rightarrow>
                0 < min_distance r \<and> x * x + y * y + z * z < min_distance r * min_distance r) ps"
proof -
  have "\<And>p. (vlength (vsub loc p) < min_distance r) =
     (case vsub loc p of (x, y, z) \<Rightarrow>
                0 < min_distance r \<and> x * x + y * y + z * z < min_distance r * min_distance r)"
    by (simp add: vlength_less_iff split: prod.splits)
  then show ?thesis unfolding too_close_def by simp
qed

declare radians_def [code del]

section \<open>Names of copies\<close>

lemma first_free_range:
  "n \<le> first_free used b n k \<and> first_free used b n k \<le> n + k"
proof (induction k arbitrary: n)
  case 0
  then show ?case by simp
next
  case (Suc k)
  from Suc [of "Suc n"] show ?case by auto
qed

lemma first_free_below:
  "n \<le> j \<Longrightarrow> j < first_free used b n k \<Longrightarrow> (b, j) \<in> set used"
proof (induction k arbitrary: n)
  case 0
  then show ?case by simp
next
  case (Suc k)
  show ?case
  proof (cases "(b, n) \<in> set used")
    case True
    show ?thesis
    proof (cases "j = n")
      case True
      with \<open>(b, n) \<in> set used\<close> show ?thesis by simp
    next
      case False
      with Suc.prems True Suc.IH [of "Suc n"] show ?thesis by simp
    qed
  next
    case False
    with Suc.prems show ?thesis by simp
  qed
qed

lemma first_free_stop:
  "first_free used b n k < n + k \<Longrightarrow> (b, first_free used b n k) \<notin> set used"
  by (induction k arbitrary: n) (auto split: if_splits)

lemma first_free_fresh: "(b, first_free used b n (length used)) \<notin> set used"
proof (cases "first_free used b n (length used) < n + length used")
  case True
  then show ?thesis by (rule first_free_stop)
next
  case False
  then have eq: "first_free used b n (length used) = n + length used"
    using first_free_range [of n used b "length used"] by simp
  have sub: "Pair b ` {n ..< n + length used} \<subseteq> set used"
    using first_free_below [of n _ used b "length used"] eq by auto
  have "card (Pair b ` {n ..< n + length used}) = length used"
    by (simp add: card_image inj_on_def)
  moreover have "card (set used) \<le> length used" by (rule card_length)
  ultimately have "Pair b ` {n ..< n + length used} = set used"
    using sub by (metis card_subset_eq List.finite_set le_antisym card_mono)
  then have "(b, n + length used) \<notin> set used"
    by (metis atLeastLessThan_iff imageE less_irrefl prod.inject)
  with eq show ?thesis by simp
qed

lemma unique_name_fresh: "unique_name used nm \<notin> set used"
  by (simp add: unique_name_def first_free_fresh)

lemma unique_name_suffix: "0 < snd (unique_name used nm)"
  using first_free_range [of 1 used "fst nm" "length used"] by (simp add: unique_name_def)

definition live :: "obj_name \<Rightarrow> world \<Rightarrow> bool" where
  "live n w \<longleftrightarrow> deref n w \<noteq> None"

lemma live_iff: "live n w \<longleftrightarrow> n \<in> fst ` set (objects w)"
  by (simp add: live_def deref_def map_of_eq_None_iff)

section \<open>The loop and the run\<close>

text \<open>The world in which the loop starts: the target collection exists and is empty.\<close>

definition prepare :: "string \<Rightarrow> world \<Rightarrow> world" where
  "prepare c w = clear_collection (Some c) (snd (get_or_create_collection c w))"


lemma scatter_loop_stop:
  "\<not> (placed st < count r \<and> tries st < max_tries) \<Longrightarrow>
     scatter_loop h place r terrain src col max_tries st w = (Inr st, w)"
  by (subst scatter_loop.simps) auto

lemma scatter_loop_step:
  "placed st < count r \<Longrightarrow> tries st < max_tries \<Longrightarrow>
   scatter_body h place r terrain src col (st\<lparr>tries := tries st + 1\<rparr>) w = (Inr st1, w1) \<Longrightarrow>
     scatter_loop h place r terrain src col max_tries st w =
     scatter_loop h place r terrain src col max_tries st1 w1"
  by (subst scatter_loop.simps) simp

lemma scatter_loop_error:
  "placed st < count r \<Longrightarrow> tries st < max_tries \<Longrightarrow>
   scatter_body h place r terrain src col (st\<lparr>tries := tries st + 1\<rparr>) w = (Inl e, w1) \<Longrightarrow>
     scatter_loop h place r terrain src col max_tries st w = (Inl e, w1)"
  by (subst scatter_loop.simps) simp

lemma scatter_loop_invariant:
  assumes "scatter_loop h place r terrain src col max_tries st w = (Inr st', w')"
    and "I st w"
    and "\<And>st w st1 w1. I st w \<Longrightarrow> placed st < count r \<Longrightarrow> tries st < max_tries \<Longrightarrow>
           scatter_body h place r terrain src col (st\<lparr>tries := tries st + 1\<rparr>) w = (Inr st1, w1)
           \<Longrightarrow> I st1 w1"
  shows "I st' w' \<and> \<not> (placed st' < count r \<and> tries st' < max_tries)"
  using assms
proof (induction h place r terrain src col max_tries st w rule: scatter_loop.induct)
  case (1 h place r terrain src col max_tries st w)
  show ?case
  proof (cases "placed st < count r \<and> tries st < max_tries")
    case False
    with "1.prems"(1,2) show ?thesis by (simp add: scatter_loop_stop)
  next
    case True
    obtain res w1 where body:
      "scatter_body h place r terrain src col (st\<lparr>tries := tries st + 1\<rparr>) w = (res, w1)"
      by (cases "scatter_body h place r terrain src col (st\<lparr>tries := tries st + 1\<rparr>) w")
    show ?thesis
    proof (cases res)
      case (Inl e)
      with body True "1.prems"(1) show ?thesis by (simp add: scatter_loop_error)
    next
      case (Inr st1)
      with body True "1.prems"(1)
      have loop: "scatter_loop h place r terrain src col max_tries st1 w1 = (Inr st', w')"
        by (simp add: scatter_loop_step)
      have inv: "I st1 w1"
        using "1.prems"(3) [OF "1.prems"(2) _ _ body [unfolded Inr]] True by simp
      show ?thesis
        by (rule "1.IH" [OF True body [symmetric] Inr loop inv "1.prems"(3)])
    qed
  qed
qed


lemma get_or_create_collection_fst [simp]: "fst (get_or_create_collection c w) = c"
  by (simp add: get_or_create_collection_def split: option.splits)

lemma get_or_create_collection_name:
  "get_or_create_collection c w = (x, w1) \<Longrightarrow> x = c"
  by (auto simp: get_or_create_collection_def split: option.splits)

lemma objects_get_Some: "objects_get n w = Some m \<Longrightarrow> m = n \<and> deref n w \<noteq> None"
  by (auto simp: objects_get_def split: option.splits)

lemma scatter_run_success:
  assumes "scatter_run h r w = (Inr st, w')"
  shows "\<exists>t. deref terrain_name w = Some t \<and> obj_type t = ''MESH''"
    and "deref (source_obj_name r) w \<noteq> None"
    and "min_scale r \<le> max_scale r"
    and "scatter_loop h (place_with_children h r) r terrain_name (source_obj_name r)
           (target_collection_name r) (count r * 40) start_state
           (prepare (target_collection_name r) w) = (Inr st, w')"
  using assms
  by (auto simp: scatter_run_def prepare_def Let_def split: option.splits if_splits prod.splits
      dest!: objects_get_Some dest: get_or_create_collection_name)

lemma scatter_run_single_success:
  assumes "scatter_run_single h r w = (Inr st, w')"
  shows "deref terrain_name w \<noteq> None"
    and "deref (source_obj_name r) w \<noteq> None"
    and "min_scale r \<le> max_scale r"
    and "scatter_loop h (place_single h r) (r\<lparr>use_vgroup := True\<rparr>) terrain_name
           (source_obj_name r) (target_collection_name r) (count r * 40) start_state
           (prepare (target_collection_name r) w) = (Inr st, w')"
  using assms
  by (auto simp: scatter_run_single_def prepare_def Let_def split: option.splits if_splits prod.splits
      dest!: objects_get_Some dest: get_or_create_collection_name)



section \<open>The weight of a face\<close>

lemma vgroup_absent:
  "deref terrain w = Some t \<Longrightarrow> map_of (vertex_groups t) g = None \<Longrightarrow>
   vgroup_weight_at_face_avg terrain g f w = Inr 0"
  by (simp add: vgroup_weight_at_face_avg_def)

lemma sum_list_vertex_weight:
  "sum_list (map (vertex_weight vg) vs) = sum_list (List.map_filter (map_of vg) vs)"
  by (induction vs) (auto simp: vertex_weight_def List.map_filter_simps split: option.splits)

text \<open>
  C10. In the mean over the vertices of a face, a vertex that is not assigned to the vertex
  group counts with weight 0: the sum runs over the weights of the assigned vertices
  only, and it is divided by the number of all vertices of the face. The lookup that
  fails for such a vertex does not end the call: the result is a value, not an error.
\<close>

theorem avg_counts_unassigned_as_zero:
  assumes "deref terrain w = Some t"
    and "map_of (vertex_groups t) g = Some vg"
    and "data t = Some me"
    and "f < length (polygons me)"
  shows "vgroup_weight_at_face_avg terrain g f w =
           Inr (sum_list (List.map_filter (map_of vg) (polygons me ! f)) /
                real (length (polygons me ! f)))"
  using assms by (simp add: vgroup_weight_at_face_avg_def sum_list_vertex_weight Let_def)

theorem avg_counts_unassigned_as_zero_witness:
  "deref (''Plane'', 0) world0 = Some plane_obj \<and>
   map_of (vertex_groups plane_obj) ''NoTrees'' = Some [(0, 1)] \<and>
   data plane_obj = Some \<lparr>vertices = [(-10, -10, 0), (10, -10, 0), (10, 10, 0), (-10, 10, 0)],
                            polygons = [[0, 1, 2, 3]]\<rparr> \<and>
   vgroup_weight_at_face_avg (''Plane'', 0) ''NoTrees'' 0 world0 = Inr (1 / 4)"
proof -
  have a: "deref (''Plane'', 0) world0 = Some plane_obj"
    by (simp add: deref_def world0_def)
  have b: "map_of (vertex_groups plane_obj) ''NoTrees'' = Some [(0, 1)]"
    by (simp add: plane_obj_def)
  have c: "data plane_obj =
             Some \<lparr>vertices = [(-10, -10, 0), (10, -10, 0), (10, 10, 0), (-10, 10, 0)],
                   polygons = [[0, 1, 2, 3]]\<rparr>"
    by (simp add: plane_obj_def)
  have d: "0 < length (polygons \<lparr>vertices = [(-10, -10, 0), (10, -10, 0), (10, 10, 0), (-10, 10, 0)],
                                  polygons = [[0, 1, 2, 3]]\<rparr>)"
    by simp
  from avg_counts_unassigned_as_zero [OF a b c d] a b c show ?thesis
    by (simp add: List.map_filter_simps)
qed

section \<open>The attempts and the count\<close>





section \<open>What a placement adds to the scene\<close>

text \<open>
  \<open>grows c added w w'\<close>: from \<open>w\<close> to \<open>w'\<close> the objects \<open>added\<close> were made, under names that
  no object had (names with a suffix from 1 on), and linked to the collection \<open>c\<close> in the
  order in which they were made; nothing else of the scene changed.
\<close>

definition link_names ::
  "string \<Rightarrow> obj_name list \<Rightarrow> (string \<times> obj_name list) list \<Rightarrow> (string \<times> obj_name list) list" where
  "link_names c ns cs = map (\<lambda>(k, ms). if k = c then (k, ms @ ns) else (k, ms)) cs"

lemma link_names_append: "link_names c b (link_names c a cs) = link_names c (a @ b) cs"
  by (induction cs) (auto simp: link_names_def)

lemma link_names_Nil [simp]: "link_names c [] cs = cs"
  by (induction cs) (auto simp: link_names_def)

definition grows :: "string \<Rightarrow> (obj_name \<times> obj) list \<Rightarrow> world \<Rightarrow> world \<Rightarrow> bool" where
  "grows c added w w' \<longleftrightarrow>
     objects w' = objects w @ added \<and>
     collections w' = link_names c (map fst added) (collections w) \<and>
     scene_children w' = scene_children w \<and>
     distinct (map fst added) \<and>
     (\<forall>n \<in> fst ` set added. \<not> live n w \<and> 0 < snd n)"

lemma grows_refl: "grows c [] w w"
  by (simp add: grows_def)

lemma live_grows: "grows c a w w' \<Longrightarrow> live n w' \<longleftrightarrow> live n w \<or> n \<in> fst ` set a"
  by (auto simp: grows_def live_iff)

lemma grows_trans:
  assumes "grows c a w w1" and "grows c b w1 w2"
  shows "grows c (a @ b) w w2"
proof -
  have fresh: "\<forall>n \<in> fst ` set b. \<not> live n w \<and> n \<notin> fst ` set a"
    using assms(2) live_grows [OF assms(1)] by (auto simp: grows_def)
  then have "fst ` set a \<inter> fst ` set b = {}" by blast
  then have "distinct (map fst (a @ b))"
    using assms by (simp add: grows_def)
  with assms fresh show ?thesis
    by (auto simp: grows_def link_names_append)
qed

lemma grows_rng: "grows c a w w' \<Longrightarrow> grows c a w (w'\<lparr>rng := g\<rparr>)"
  by (simp add: grows_def)

definition upd :: "obj_name \<Rightarrow> (obj \<Rightarrow> obj) \<Rightarrow> obj_name \<times> obj \<Rightarrow> obj_name \<times> obj" where
  "upd n f = (\<lambda>(k, ob). if k = n then (k, f ob) else (k, ob))"

lemma obj_update_objects: "objects (obj_update n f w) = map (upd n f) (objects w)"
  by (simp add: obj_update_def upd_def)

lemma fst_upd [simp]: "fst (upd n f e) = fst e"
  by (cases e) (simp add: upd_def)

lemma map_upd_id: "n \<notin> fst ` set xs \<Longrightarrow> map (upd n f) xs = xs"
  by (induction xs) (auto simp: upd_def)

lemma map_upd_head: "n \<notin> fst ` set r \<Longrightarrow> map (upd n f) ((n, ob) # r) = (n, f ob) # r"
  by (simp add: map_upd_id) (simp add: upd_def)

lemma grows_update:
  assumes "grows c a w w'" and "\<not> live n w"
  shows "grows c (map (upd n f) a) w (obj_update n f w')"
proof -
  have "map (upd n f) (objects w) = objects w"
    using assms(2) by (simp add: map_upd_id live_iff)
  with assms(1) show ?thesis
    by (simp add: grows_def obj_update_objects comp_def) (simp add: obj_update_def)
qed

lemma obj_copy_grows:
  assumes "obj_copy src w = (Inr new, w')"
  shows "\<exists>os. deref src w = Some os \<and> objects w' = objects w @ [(new, os)] \<and>
              (\<not> live new w \<and> 0 < snd new) \<and>
              collections w' = collections w \<and> scene_children w' = scene_children w \<and>
              rng w' = rng w"
proof -
  have "unique_name (map fst (objects w)) src \<notin> fst ` set (objects w)"
    using unique_name_fresh [of "map fst (objects w)" src] by simp
  with assms unique_name_suffix [of "map fst (objects w)" src] show ?thesis
    by (auto simp: obj_copy_def Let_def live_iff split: option.splits)
qed

lemma objects_link_grows:
  assumes "objects_link c n w = (Inr u, w')"
  shows "objects w' = objects w \<and> collections w' = link_names c [n] (collections w) \<and>
         scene_children w' = scene_children w \<and> rng w' = rng w"
  using assms by (auto simp: objects_link_def link_names_def split: if_splits)


definition inner :: "obj_name set \<Rightarrow> (obj_name \<times> obj) list \<Rightarrow> bool" where
  "inner S rest \<longleftrightarrow> (\<forall>e \<in> set rest. \<exists>p \<in> S. parent (snd e) = Some p)"

lemma inner_mono: "inner S rest \<Longrightarrow> S \<subseteq> T \<Longrightarrow> inner T rest"
  by (fastforce simp: inner_def)

lemma inner_append: "inner S (a @ b) \<longleftrightarrow> inner S a \<and> inner S b"
  by (auto simp: inner_def)

lemma copy_shape:
  "copy_with_children d src col w = (Inr new, w') \<Longrightarrow>
     \<exists>os rest. deref src w = Some os \<and> grows col ((new, os) # rest) w w' \<and> rng w' = rng w \<and>
               inner (insert new (fst ` set rest)) rest"
  "copy_children d cs new_obj col w = (Inr u, w') \<Longrightarrow>
     \<exists>rest. grows col rest w w' \<and> rng w' = rng w \<and> inner (insert new_obj (fst ` set rest)) rest"
proof (induction d src col w and d cs new_obj col w arbitrary: new w' and u w'
       rule: copy_with_children_copy_children.induct)
  case (1 src_obj target_collection w)
  then show ?case by simp
next
  case (2 d src_obj target_collection w)
  from "2.prems" obtain n1 w1 where copy: "obj_copy src_obj w = (Inr n1, w1)"
    by (auto split: prod.splits sum.splits)
  from "2.prems" copy obtain u2 w2 where link: "objects_link target_collection n1 w1 = (Inr u2, w2)"
    by (auto split: prod.splits sum.splits)
  from "2.prems" copy link obtain u3 where
    kids: "copy_children d (children src_obj w2) n1 target_collection w2 = (Inr u3, w')"
    and new: "new = n1"
    by (auto split: prod.splits sum.splits)
  from obj_copy_grows [OF copy] obtain os where os: "deref src_obj w = Some os"
    and o1: "objects w1 = objects w @ [(n1, os)]" "\<not> live n1 w \<and> 0 < snd n1"
      "collections w1 = collections w" "scene_children w1 = scene_children w" "rng w1 = rng w"
    by blast
  from objects_link_grows [OF link] have o2: "objects w2 = objects w1"
    "collections w2 = link_names target_collection [n1] (collections w1)"
    "scene_children w2 = scene_children w1" "rng w2 = rng w1"
    by simp_all
  have g2: "grows target_collection [(n1, os)] w w2"
    using o1 o2 by (simp add: grows_def)
  from "2.IH" [OF copy [symmetric] refl link [symmetric] refl kids]
  obtain rest where g3: "grows target_collection rest w2 w'" and r3: "rng w' = rng w2"
    and in3: "inner (insert n1 (fst ` set rest)) rest"
    by blast
  from grows_trans [OF g2 g3] have "grows target_collection ((n1, os) # rest) w w'" by simp
  with os r3 o1 o2 in3 new show ?case by auto
next
  case (3 d new_obj target_collection w)
  then have "grows target_collection [] w w' \<and> rng w' = rng w \<and>
             inner (insert new_obj (fst ` set [])) []"
    by (simp add: grows_refl inner_def)
  then show ?case by blast
next
  case (4 d child rest new_obj target_collection w)
  from "4.prems" obtain nc w1 where cp: "copy_with_children d child target_collection w = (Inr nc, w1)"
    by (auto split: prod.splits sum.splits)
  from "4.prems" cp obtain c where c: "deref child w1 = Some c"
    by (auto split: option.splits)
  let ?f = "\<lambda>ob. set_matrix_basis (matrix_basis c)
              (ob\<lparr>parent := Some new_obj, matrix_parent_inverse := matrix_parent_inverse c\<rparr>)"
  from "4.prems" cp c have more:
    "copy_children d rest new_obj target_collection (obj_update nc ?f w1) = (Inr u, w')"
    by simp
  from "4.IH"(1) [OF cp] obtain oc r1 where
    g1: "grows target_collection ((nc, oc) # r1) w w1" and rng1: "rng w1 = rng w"
    and in1: "inner (insert nc (fst ` set r1)) r1"
    by blast
  from g1 have fresh: "\<not> live nc w" and nc_r1: "nc \<notin> fst ` set r1"
    by (auto simp: grows_def)
  from grows_update [OF g1 fresh, of ?f]
  have g1': "grows target_collection ((nc, ?f oc) # r1) w (obj_update nc ?f w1)"
    by (simp only: map_upd_head [OF nc_r1])
  from "4.IH"(2) [OF cp [symmetric] refl c more]
  obtain r2 where g2: "grows target_collection r2 (obj_update nc ?f w1) w'"
    and rng2: "rng w' = rng (obj_update nc ?f w1)"
    and in2: "inner (insert new_obj (fst ` set r2)) r2"
    by blast
  let ?all = "(nc, ?f oc) # r1 @ r2"
  from grows_trans [OF g1' g2] have g: "grows target_collection ?all w w'" by simp
  have "parent (?f oc) = Some new_obj" by (simp add: set_matrix_basis_def)
  then have "inner (insert new_obj (fst ` set ?all)) [(nc, ?f oc)]"
    by (simp add: inner_def)
  moreover have "inner (insert new_obj (fst ` set ?all)) r1"
    by (rule inner_mono [OF in1]) auto
  moreover have "inner (insert new_obj (fst ` set ?all)) r2"
    by (rule inner_mono [OF in2]) auto
  ultimately have "inner (insert new_obj (fst ` set ?all)) ?all"
    using inner_append [of _ "[(nc, ?f oc)]" "r1 @ r2"] by (simp add: inner_append)
  moreover have "rng w' = rng w" using rng2 rng1 by (simp add: obj_update_def)
  ultimately show ?case using g by blast
qed


definition placement_step ::
  "host \<Rightarrow> request \<Rightarrow> obj_name \<Rightarrow> string \<Rightarrow> vec3 \<Rightarrow> world \<Rightarrow> obj_name \<Rightarrow> real \<Rightarrow> real \<Rightarrow> world \<Rightarrow> bool"
  where
  "placement_step h r src col loc w new yaw s w' \<longleftrightarrow>
     (\<exists>os ob rest.
        deref src w = Some os \<and> grows col ((new, ob) # rest) w w' \<and>
        inner (insert new (fst ` set rest)) rest \<and>
        parent ob = parent os \<and> location ob = loc \<and>
        snd (snd (rotation_euler ob)) = radians yaw \<and> scale ob = (s, s, s) \<and>
        yaw = 360 * random h (rng w) \<and>
        s = min_scale r + (max_scale r - min_scale r) * random h (Suc (rng w)) \<and>
        rng w' = Suc (Suc (rng w)))"

definition placer_ok :: "host \<Rightarrow> request \<Rightarrow> placer \<Rightarrow> bool" where
  "placer_ok h r place \<longleftrightarrow>
     (\<forall>src col loc w new yaw s w'.
        place src col loc w = (Inr (new, yaw, s), w') \<longrightarrow>
        placement_step h r src col loc w new yaw s w')"

lemma obj_update_rng [simp]: "rng (obj_update n f w) = rng w"
  by (simp add: obj_update_def)

lemma place_with_children_ok: "placer_ok h r (place_with_children h r)"
  unfolding placer_ok_def
proof (intro allI impI)
  fix src col loc w new yaw s w'
  assume res: "place_with_children h r src col loc w = (Inr (new, yaw, s), w')"
  then obtain w1 where cp: "copy_with_children (recursion_limit h) src col w = (Inr new, w1)"
    by (auto simp: place_with_children_def uniform_def Let_def split: prod.splits sum.splits)
  from copy_shape(1) [OF cp] obtain os rest where os: "deref src w = Some os"
    and g1: "grows col ((new, os) # rest) w w1" and rng1: "rng w1 = rng w"
    and inn: "inner (insert new (fst ` set rest)) rest"
    by blast
  from g1 have fresh: "\<not> live new w" and nr: "new \<notin> fst ` set rest"
    by (auto simp: grows_def)
  let ?f1 = "\<lambda>ob. ob\<lparr>location := loc\<rparr>"
  let ?f2 = "\<lambda>ob. ob\<lparr>rotation_euler :=
                 (fst (rotation_euler ob), fst (snd (rotation_euler ob)), radians yaw)\<rparr>"
  let ?f3 = "\<lambda>ob. ob\<lparr>scale := (s, s, s)\<rparr>"
  from res cp rng1 have yaw: "yaw = 360 * random h (rng w)"
    and s: "s = min_scale r + (max_scale r - min_scale r) * random h (Suc (rng w))"
    and w': "w' = obj_update new ?f3
                   ((obj_update new ?f2 ((obj_update new ?f1 w1)\<lparr>rng := Suc (rng w)\<rparr>))
                      \<lparr>rng := Suc (Suc (rng w))\<rparr>)"
    by (auto simp: place_with_children_def uniform_def Let_def split: prod.splits)
  have g2: "grows col ((new, ?f1 os) # rest) w ((obj_update new ?f1 w1)\<lparr>rng := Suc (rng w)\<rparr>)"
    using grows_rng [OF grows_update [OF g1 fresh, of ?f1]] by (simp only: map_upd_head [OF nr])
  have g3: "grows col ((new, ?f2 (?f1 os)) # rest) w
              ((obj_update new ?f2 ((obj_update new ?f1 w1)\<lparr>rng := Suc (rng w)\<rparr>))
                 \<lparr>rng := Suc (Suc (rng w))\<rparr>)"
    using grows_rng [OF grows_update [OF g2 fresh, of ?f2]] by (simp only: map_upd_head [OF nr])
  have g4: "grows col ((new, ?f3 (?f2 (?f1 os))) # rest) w w'"
    unfolding w' using grows_update [OF g3 fresh, of ?f3] by (simp only: map_upd_head [OF nr])
  show "placement_step h r src col loc w new yaw s w'"
    unfolding placement_step_def
    apply (rule exI [of _ os], rule exI [of _ "?f3 (?f2 (?f1 os))"], rule exI [of _ rest])
    using os g4 inn yaw s w' by simp
qed

lemma deref_append: "deref n w = Some ob \<Longrightarrow> objects w' = objects w @ a \<Longrightarrow> deref n w' = Some ob"
  by (simp add: deref_def)

lemma place_single_ok: "placer_ok h r (place_single h r)"
  unfolding placer_ok_def
proof (intro allI impI)
  fix src col loc w new yaw s w'
  assume res: "place_single h r src col loc w = (Inr (new, yaw, s), w')"
  then obtain w1 where cp: "obj_copy src w = (Inr new, w1)"
    by (auto simp: place_single_def uniform_def Let_def split: prod.splits sum.splits option.splits)
  from obj_copy_grows [OF cp] obtain os where os: "deref src w = Some os"
    and o1: "objects w1 = objects w @ [(new, os)]" "\<not> live new w \<and> 0 < snd new"
      "collections w1 = collections w" "scene_children w1 = scene_children w" "rng w1 = rng w"
    by blast
  have src1: "deref src w1 = Some os" by (rule deref_append [OF os o1(1)])
  let ?f0 = "\<lambda>ob. case data os of None \<Rightarrow> ob | Some me \<Rightarrow> ob\<lparr>data := Some me\<rparr>"
  let ?f1 = "\<lambda>ob. ob\<lparr>location := loc\<rparr>"
  let ?f2 = "\<lambda>ob. ob\<lparr>rotation_euler :=
                 (fst (rotation_euler ob), fst (snd (rotation_euler ob)), radians yaw)\<rparr>"
  let ?f3 = "\<lambda>ob. ob\<lparr>scale := (s, s, s)\<rparr>"
  let ?ob = "?f3 (?f2 (?f1 (?f0 os)))"
  have unchanged: "\<And>f. map (upd new f) (objects w) = objects w"
    using o1(2) by (simp add: map_upd_id live_iff)
  from res cp src1 o1 have yaw: "yaw = 360 * random h (rng w)"
    and s: "s = min_scale r + (max_scale r - min_scale r) * random h (Suc (rng w))"
    by (auto simp: place_single_def uniform_def Let_def split: prod.splits sum.splits option.splits)
  from res cp src1 o1 yaw s have "objects w' = objects w @ [(new, ?ob)] \<and>
         collections w' = link_names col [new] (collections w) \<and>
         scene_children w' = scene_children w \<and> rng w' = Suc (Suc (rng w))"
    by (auto simp: place_single_def uniform_def Let_def objects_link_def link_names_def
        obj_update_def upd_def [symmetric] unchanged
        split: prod.splits sum.splits option.splits if_splits)
       (simp_all add: upd_def)
  then have g: "grows col [(new, ?ob)] w w'" and rg: "rng w' = Suc (Suc (rng w))"
    using o1(2) by (simp_all add: grows_def)
  have p: "parent ?ob = parent os \<and> location ?ob = loc \<and>
           snd (snd (rotation_euler ?ob)) = radians yaw \<and> scale ?ob = (s, s, s)"
    by (simp split: option.splits)
  show "placement_step h r src col loc w new yaw s w'"
    unfolding placement_step_def
    apply (rule exI [of _ os], rule exI [of _ ?ob], rule exI [of _ "[]"])
    using os g rg yaw s p by (simp add: inner_def)
qed

section \<open>What holds of every accepted candidate\<close>

text \<open>
  \<open>extends w w'\<close>: every object of \<open>w\<close> is in \<open>w'\<close> as it was. An iteration of the loop
  extends the world; so does a placement, which only adds objects.
\<close>

definition extends :: "world \<Rightarrow> world \<Rightarrow> bool" where
  "extends w w' \<longleftrightarrow> (\<forall>n ob. deref n w = Some ob \<longrightarrow> deref n w' = Some ob)"

lemma extendsD: "extends w w' \<Longrightarrow> deref n w = Some ob \<Longrightarrow> deref n w' = Some ob"
  unfolding extends_def by blast

lemma extends_refl [simp]: "extends w w"
  by (simp add: extends_def)

lemma extends_trans: "extends w w1 \<Longrightarrow> extends w1 w2 \<Longrightarrow> extends w w2"
  by (simp add: extends_def)

lemma extends_rng [simp]: "extends w (w\<lparr>rng := g\<rparr>)"
  by (simp add: extends_def deref_def)

lemma grows_extends: "grows c a w w' \<Longrightarrow> extends w w'"
  by (simp add: grows_def extends_def deref_def)

lemma grows_deref_new:
  assumes "grows c ((n, ob) # rest) w w'"
  shows "deref n w' = Some ob"
proof -
  from assms have "n \<notin> fst ` set (objects w)" by (simp add: grows_def live_iff)
  then have "map_of (objects w) n = None" by (simp add: map_of_eq_None_iff)
  with assms show ?thesis by (simp add: grows_def deref_def map_add_def)
qed

lemma placement_step_extends:
  "placement_step h r src col loc w new yaw s w' \<Longrightarrow> extends w w'"
  by (auto simp: placement_step_def dest: grows_extends)

lemma deref_rng [simp]: "deref n (w\<lparr>rng := g\<rparr>) = deref n w"
  by (simp add: deref_def)

text \<open>One iteration: the state is unchanged, or one candidate was accepted.\<close>

definition drawn :: "world \<Rightarrow> world" where
  "drawn w = w\<lparr>rng := Suc (Suc (rng w))\<rparr>"

lemma scatter_body_cases:
  assumes ok: "placer_ok h r0 place"
    and body: "scatter_body h place r terrain src col st w = (Inr st', w')"
  shows "(st' = st \<and> w' = drawn w) \<or>
         (\<exists>loc face new yaw s.
            (\<exists>x y. raycast_to_terrain h terrain x y (z_start r) (drawn w) = Inr (Some (loc, face))) \<and>
            on_path r terrain face (drawn w) = Inr False \<and>
            \<not> (0 < min_distance r \<and> too_close r loc (placed_positions st)) \<and>
            placement_step h r0 src col loc (drawn w) new yaw s w' \<and>
            st' = st\<lparr>placed_positions :=
                       (if 0 < min_distance r then placed_positions st @ [loc]
                        else placed_positions st),
                     placed := placed st + 1,
                     accepted := accepted st @
                       [\<lparr>p_root = new, p_location = loc, p_face = face, p_yaw = yaw,
                         p_scale = s\<rparr>]\<rparr>)"
proof -
  let ?x = "- area r + (area r - - area r) * random h (rng w)"
  let ?y = "- area r + (area r - - area r) * random h (Suc (rng w))"
  let ?w2 = "drawn w"
  have w2: "snd (uniform h (- area r) (area r) (snd (uniform h (- area r) (area r) w))) = ?w2"
    by (simp add: uniform_def drawn_def)
  obtain rc where rc: "raycast_to_terrain h terrain ?x ?y (z_start r) ?w2 = rc" by simp
  show ?thesis
  proof (cases rc)
    case (Inl e)
    with body rc show ?thesis
      by (simp add: scatter_body_def uniform_def drawn_def Let_def)
  next
    case (Inr hit)
    show ?thesis
    proof (cases hit)
      case None
      with body rc Inr show ?thesis
        by (simp add: scatter_body_def uniform_def drawn_def Let_def)
    next
      case (Some lf)
      obtain loc face where lf: "lf = (loc, face)" by (cases lf)
      obtain op where op: "on_path r terrain face ?w2 = op" by simp
      show ?thesis
      proof (cases op)
        case (Inl e)
        with body rc \<open>rc = Inr hit\<close> Some lf op show ?thesis
          by (simp add: scatter_body_def uniform_def drawn_def Let_def)
      next
        case (Inr b)
        note opb = this
        show ?thesis
        proof (cases "b \<or> (0 < min_distance r \<and> too_close r loc (placed_positions st))")
          case True
          with body rc \<open>rc = Inr hit\<close> Some lf op opb show ?thesis
            by (cases b) (auto simp: scatter_body_def uniform_def drawn_def Let_def)
        next
          case False
          obtain res w3 where pl: "place src col loc ?w2 = (res, w3)"
            by (cases "place src col loc ?w2")
          from body rc \<open>rc = Inr hit\<close> Some lf op opb False pl
          obtain new yaw s where res: "res = Inr (new, yaw, s)" and w3: "w3 = w'"
            and st': "st' = st\<lparr>placed_positions :=
                       (if 0 < min_distance r then placed_positions st @ [loc]
                        else placed_positions st),
                     placed := placed st + 1,
                     accepted := accepted st @
                       [\<lparr>p_root = new, p_location = loc, p_face = face, p_yaw = yaw,
                         p_scale = s\<rparr>]\<rparr>"
            by (cases res; cases b) (auto simp: scatter_body_def uniform_def drawn_def Let_def
                split: if_splits)
          from pl res w3 have "place src col loc ?w2 = (Inr (new, yaw, s), w')" by simp
          with ok have "placement_step h r0 src col loc ?w2 new yaw s w'"
            unfolding placer_ok_def by blast
          moreover have "\<exists>x y. raycast_to_terrain h terrain x y (z_start r) ?w2 =
                             Inr (Some (loc, face))"
            using rc \<open>rc = Inr hit\<close> Some lf by blast
          moreover have "on_path r terrain face ?w2 = Inr False"
            using op opb False by simp
          ultimately show ?thesis
            apply (intro disjI2)
            apply (rule exI [of _ loc], rule exI [of _ face], rule exI [of _ new],
                   rule exI [of _ yaw], rule exI [of _ s])
            using False st' by simp
        qed
      qed
    qed
  qed
qed


lemma weight_extends:
  "extends w w' \<Longrightarrow> vgroup_weight_at_face_avg terrain g f w = Inr wt \<Longrightarrow>
     vgroup_weight_at_face_avg terrain g f w' = Inr wt"
proof -
  assume e: "extends w w'" and v: "vgroup_weight_at_face_avg terrain g f w = Inr wt"
  from v obtain t where t: "deref terrain w = Some t"
    by (cases "deref terrain w") (auto simp: vgroup_weight_at_face_avg_def)
  from extendsD [OF e t] t v show ?thesis
    by (simp add: vgroup_weight_at_face_avg_def)
qed

definition placed_ok :: "host \<Rightarrow> request \<Rightarrow> obj_name \<Rightarrow> world \<Rightarrow> placement \<Rightarrow> bool" where
  "placed_ok h r terrain w p \<longleftrightarrow>
     (\<exists>ob. deref (p_root p) w = Some ob \<and> location ob = p_location p \<and>
           snd (snd (rotation_euler ob)) = radians (p_yaw p) \<and>
           scale ob = (p_scale p, p_scale p, p_scale p)) \<and>
     (\<exists>k. p_yaw p = 360 * random h k) \<and>
     (\<exists>k. p_scale p = min_scale r + (max_scale r - min_scale r) * random h k) \<and>
     (use_vgroup r \<longrightarrow>
        (\<exists>wt. vgroup_weight_at_face_avg terrain no_trees_vgroup (p_face p) w = Inr wt \<and>
              wt \<le> path_threshold r))"

lemma placed_ok_extends:
  "extends w w' \<Longrightarrow> placed_ok h r terrain w p \<Longrightarrow> placed_ok h r terrain w' p"
  unfolding placed_ok_def by (auto dest: weight_extends extendsD)

definition spaced :: "real \<Rightarrow> vec3 list \<Rightarrow> bool" where
  "spaced d ps \<longleftrightarrow> (\<forall>i j. i < j \<and> j < length ps \<longrightarrow> d \<le> vlength (vsub (ps ! j) (ps ! i)))"

lemma spaced_Nil [simp]: "spaced d []"
  by (simp add: spaced_def)

lemma spaced_snoc:
  assumes "spaced d ps" and "\<not> too_close r loc ps" and "d = min_distance r"
  shows "spaced d (ps @ [loc])"
  unfolding spaced_def
proof (intro allI impI)
  fix i j
  assume ij: "i < j \<and> j < length (ps @ [loc])"
  show "d \<le> vlength (vsub ((ps @ [loc]) ! j) ((ps @ [loc]) ! i))"
  proof (cases "j < length ps")
    case True
    with ij assms(1) show ?thesis by (simp add: spaced_def nth_append)
  next
    case False
    with ij have j: "j = length ps" and i: "i < length ps" by simp_all
    from i have "ps ! i \<in> set ps" by simp
    with assms(2) have "\<not> vlength (vsub loc (ps ! i)) < min_distance r"
      by (auto simp: too_close_def list_ex_iff)
    with j i assms(3) show ?thesis by (simp add: nth_append)
  qed
qed


definition run_inv :: "host \<Rightarrow> request \<Rightarrow> obj_name \<Rightarrow> loop_state \<Rightarrow> world \<Rightarrow> bool" where
  "run_inv h r terrain st w \<longleftrightarrow>
     (\<forall>p \<in> set (accepted st). placed_ok h r terrain w p) \<and>
     placed st = int (length (accepted st)) \<and>
     (0 < min_distance r \<longrightarrow> placed_positions st = map p_location (accepted st)) \<and>
     spaced (min_distance r) (placed_positions st)"

lemma run_inv_start: "run_inv h r terrain start_state w"
  by (simp add: run_inv_def start_state_def)

lemma on_path_False:
  "on_path r terrain face w = Inr False \<Longrightarrow> use_vgroup r \<Longrightarrow>
     \<exists>wt. vgroup_weight_at_face_avg terrain no_trees_vgroup face w = Inr wt \<and> wt \<le> path_threshold r"
  by (auto simp: on_path_def split: sum.splits)

lemma run_inv_step:
  assumes ok: "placer_ok h r0 place"
    and scales: "min_scale r0 = min_scale r" "max_scale r0 = max_scale r"
    and inv: "run_inv h r terrain st w"
    and body: "scatter_body h place r terrain src col (st\<lparr>tries := tries st + 1\<rparr>) w = (Inr st1, w1)"
  shows "run_inv h r terrain st1 w1"
proof -
  let ?st = "st\<lparr>tries := tries st + 1\<rparr>"
  from scatter_body_cases [OF ok body]
  consider (same) "st1 = ?st" "w1 = drawn w"
    | (acc) loc face new yaw s where
      "on_path r terrain face (drawn w) = Inr False"
      "\<not> (0 < min_distance r \<and> too_close r loc (placed_positions ?st))"
      "placement_step h r0 src col loc (drawn w) new yaw s w1"
      "st1 = ?st\<lparr>placed_positions :=
                       (if 0 < min_distance r then placed_positions ?st @ [loc]
                        else placed_positions ?st),
                     placed := placed ?st + 1,
                     accepted := accepted ?st @
                       [\<lparr>p_root = new, p_location = loc, p_face = face, p_yaw = yaw,
                         p_scale = s\<rparr>]\<rparr>"
    by blast
  then show ?thesis
  proof cases
    case same
    have "extends w w1" using same by (simp add: drawn_def)
    with inv same show ?thesis
      by (auto simp: run_inv_def dest: placed_ok_extends)
  next
    case acc
    let ?p = "\<lparr>p_root = new, p_location = loc, p_face = face, p_yaw = yaw, p_scale = s\<rparr>"
    have e0: "extends w (drawn w)" by (simp add: drawn_def)
    have e1: "extends (drawn w) w1" by (rule placement_step_extends [OF acc(3)])
    have ext: "extends w w1" by (rule extends_trans [OF e0 e1])
    from acc(3) obtain os ob rest where
      g: "grows col ((new, ob) # rest) (drawn w) w1"
      and ob: "location ob = loc" "snd (snd (rotation_euler ob)) = radians yaw" "scale ob = (s, s, s)"
      and yaw: "yaw = 360 * random h (rng (drawn w))"
      and s: "s = min_scale r0 + (max_scale r0 - min_scale r0) * random h (Suc (rng (drawn w)))"
      unfolding placement_step_def by blast
    have new: "deref new w1 = Some ob" by (rule grows_deref_new [OF g])
    have wt: "use_vgroup r \<longrightarrow>
        (\<exists>wt. vgroup_weight_at_face_avg terrain no_trees_vgroup face w1 = Inr wt \<and>
              wt \<le> path_threshold r)"
      using on_path_False [OF acc(1)] weight_extends [OF e1] by blast
    have pnew: "placed_ok h r terrain w1 ?p"
      unfolding placed_ok_def using new ob yaw s scales wt by auto
    have old: "\<forall>p \<in> set (accepted st). placed_ok h r terrain w1 p"
      using inv ext by (auto simp: run_inv_def dest: placed_ok_extends)
    have sp: "spaced (min_distance r) (placed_positions st1)"
    proof (cases "0 < min_distance r")
      case True
      with acc(2) have "\<not> too_close r loc (placed_positions st)" by simp
      moreover from inv have "spaced (min_distance r) (placed_positions st)"
        by (simp add: run_inv_def)
      ultimately have "spaced (min_distance r) (placed_positions st @ [loc])"
        by (rule spaced_snoc [OF _ _ refl, rotated])
      with True acc(4) show ?thesis by simp
    next
      case False
      with inv acc(4) show ?thesis by (simp add: run_inv_def)
    qed
    from inv acc(4) pnew old sp show ?thesis
      by (auto simp: run_inv_def)
  qed
qed

lemma run_inv_loop:
  assumes ok: "placer_ok h r0 place"
    and scales: "min_scale r0 = min_scale r" "max_scale r0 = max_scale r"
    and loop: "scatter_loop h place r terrain src col max_tries start_state w = (Inr st, w')"
  shows "run_inv h r terrain st w'"
proof -
  have "run_inv h r terrain st w' \<and> \<not> (placed st < count r \<and> tries st < max_tries)"
    by (rule scatter_loop_invariant [OF loop, where I = "run_inv h r terrain"])
       (auto intro: run_inv_start run_inv_step [OF ok scales])
  then show ?thesis by simp
qed


lemma scatter_run_inv:
  "scatter_run h r w = (Inr st, w') \<Longrightarrow> run_inv h r terrain_name st w'"
  by (rule run_inv_loop [OF place_with_children_ok refl refl scatter_run_success(4)])

lemma scatter_run_single_inv:
  "scatter_run_single h r w = (Inr st, w') \<Longrightarrow>
     run_inv h (r\<lparr>use_vgroup := True\<rparr>) terrain_name st w'"
  by (rule run_inv_loop [OF place_single_ok _ _ scatter_run_single_success(4)]) simp_all

lemma run_inv_either:
  assumes "scatter_run h r w = (Inr st, w') \<or> scatter_run_single h r w = (Inr st, w')"
  shows "run_inv h r terrain_name st w' \<or> run_inv h (r\<lparr>use_vgroup := True\<rparr>) terrain_name st w'"
  using assms scatter_run_inv scatter_run_single_inv by blast

lemma accepted_facts:
  assumes "scatter_run h r w = (Inr st, w') \<or> scatter_run_single h r w = (Inr st, w')"
    and "p \<in> set (accepted st)"
  shows "\<exists>ob k1 k2. deref (p_root p) w' = Some ob \<and> location ob = p_location p \<and>
           snd (snd (rotation_euler ob)) = radians (p_yaw p) \<and>
           scale ob = (p_scale p, p_scale p, p_scale p) \<and>
           p_yaw p = 360 * random h k1 \<and>
           p_scale p = min_scale r + (max_scale r - min_scale r) * random h k2"
proof -
  from run_inv_either [OF assms(1)] assms(2)
  have "placed_ok h r terrain_name w' p \<or> placed_ok h (r\<lparr>use_vgroup := True\<rparr>) terrain_name w' p"
    unfolding run_inv_def by blast
  then show ?thesis
  proof
    assume "placed_ok h r terrain_name w' p"
    then show ?thesis unfolding placed_ok_def by blast
  next
    assume "placed_ok h (r\<lparr>use_vgroup := True\<rparr>) terrain_name w' p"
    then show ?thesis unfolding placed_ok_def by simp
  qed
qed

lemma over_threshold_rejected:
  assumes "use_vgroup r"
    and "raycast_to_terrain h terrain
           (- area r + (area r - - area r) * random h (rng w))
           (- area r + (area r - - area r) * random h (Suc (rng w)))
           (z_start r) (drawn w) = Inr (Some (loc, face))"
    and "vgroup_weight_at_face_avg terrain no_trees_vgroup face (drawn w) = Inr wt"
    and "path_threshold r < wt"
  shows "scatter_body h place r terrain src col st w = (Inr st, drawn w)"
  using assms by (simp add: scatter_body_def uniform_def drawn_def Let_def on_path_def)

subsection \<open>An example run\<close>

text \<open>
  Two candidates are accepted in three attempts: the first at the middle of the terrain,
  the second attempt falls on the object just placed, the third is three units away.
\<close>

definition host_a :: host where
  "host_a = host0 [1/2, 1/2, 1/4, 1/2, 1/2, 1/2, 3/4, 1/2, 0, 3/4]"

definition st_a :: loop_state where
  "st_a = projr (fst (scatter_run host_a req0 world0))"

definition w_a :: world where
  "w_a = snd (scatter_run host_a req0 world0)"

lemma run_a_returns: "\<not> isl (fst (scatter_run host_a req0 world0))"
  by code_simp

lemma run_a: "scatter_run host_a req0 world0 = (Inr st_a, w_a)"
  using run_a_returns by (simp add: st_a_def w_a_def prod_eq_iff)

lemma run_a_roots: "map p_root (accepted st_a) = [(''tree'', 1), (''tree'', 2)]"
  unfolding st_a_def by code_simp

lemma run_a_length: "length (accepted st_a) = 2"
  using run_a_roots by (metis length_map length_Cons list.size(3) numeral_2_eq_2)

lemma draws_unit:
  assumes "\<forall>u \<in> set us. 0 \<le> u \<and> u < 1"
  shows "0 \<le> draws us n \<and> draws us n < 1"
  using assms by (simp add: draws_def)

lemma host_a_unit: "\<forall>n. 0 \<le> random host_a n \<and> random host_a n < 1"
proof
  fix n
  have "\<forall>u \<in> set [1/2, 1/2, 1/4, 1/2, 1/2, 1/2, 3/4, 1/2, 0, 3/4 :: real]. 0 \<le> u \<and> u < 1"
    by simp
  from draws_unit [OF this, of n] show "0 \<le> random host_a n \<and> random host_a n < 1"
    by (simp add: host_a_def host0_def)
qed

section \<open>Spacing\<close>



section \<open>The forbidden zone\<close>

text \<open>
  C7. In a run that applies the weight test (the variant with children when \<open>use_vgroup\<close>
  is set, the other variant always), the face of every accepted candidate has a mean
  weight in the group \<^verbatim>\<open>NoTrees\<close> of at most \<open>path_threshold\<close>; the terrain does not change
  during the run, so this is the weight at the time of the test. And an iteration whose
  candidate has a greater weight leaves the variables of the loop as they are and returns
  to the loop.
\<close>

theorem accepted_weight_within_threshold:
  assumes "(use_vgroup r \<and> scatter_run h r w = (Inr st, w')) \<or>
           scatter_run_single h r w = (Inr st, w')"
    and "p \<in> set (accepted st)"
  shows "(\<exists>wt. vgroup_weight_at_face_avg terrain_name no_trees_vgroup (p_face p) w' = Inr wt \<and>
               wt \<le> path_threshold r) \<and>
         (\<forall>place terrain src col st0 w0 loc face wt.
            raycast_to_terrain h terrain
              (- area r + (area r - - area r) * random h (rng w0))
              (- area r + (area r - - area r) * random h (Suc (rng w0)))
              (z_start r) (drawn w0) = Inr (Some (loc, face)) \<and>
            vgroup_weight_at_face_avg terrain no_trees_vgroup face (drawn w0) = Inr wt \<and>
            path_threshold r < wt \<longrightarrow>
            scatter_body h place (r\<lparr>use_vgroup := True\<rparr>) terrain src col st0 w0 =
              (Inr st0, drawn w0))"
proof
  show "\<exists>wt. vgroup_weight_at_face_avg terrain_name no_trees_vgroup (p_face p) w' = Inr wt \<and>
              wt \<le> path_threshold r"
    using assms(1)
  proof
    assume "use_vgroup r \<and> scatter_run h r w = (Inr st, w')"
    with scatter_run_inv [of h r w st w'] assms(2) show ?thesis
      by (auto simp: run_inv_def placed_ok_def)
  next
    assume "scatter_run_single h r w = (Inr st, w')"
    from scatter_run_single_inv [OF this] assms(2) show ?thesis
      by (auto simp: run_inv_def placed_ok_def)
  qed
next
  show "\<forall>place terrain src col st0 w0 loc face wt.
            raycast_to_terrain h terrain
              (- area r + (area r - - area r) * random h (rng w0))
              (- area r + (area r - - area r) * random h (Suc (rng w0)))
              (z_start r) (drawn w0) = Inr (Some (loc, face)) \<and>
            vgroup_weight_at_face_avg terrain no_trees_vgroup face (drawn w0) = Inr wt \<and>
            path_threshold r < wt \<longrightarrow>
            scatter_body h place (r\<lparr>use_vgroup := True\<rparr>) terrain src col st0 w0 =
              (Inr st0, drawn w0)"
    using over_threshold_rejected [where r = "r\<lparr>use_vgroup := True\<rparr>" and h = h]
    by simp
qed

theorem accepted_weight_within_threshold_witness:
  "use_vgroup req0 \<and> scatter_run host_a req0 world0 = (Inr st_a, w_a) \<and>
   accepted st_a ! 0 \<in> set (accepted st_a) \<and>
   (\<exists>wt. vgroup_weight_at_face_avg terrain_name no_trees_vgroup (p_face (accepted st_a ! 0)) w_a
            = Inr wt \<and> wt \<le> path_threshold req0)"
proof -
  have u: "use_vgroup req0" by (simp add: req0_def)
  have m: "accepted st_a ! 0 \<in> set (accepted st_a)" by (simp add: run_a_length)
  from accepted_weight_within_threshold [OF disjI1 m, OF conjI, OF u run_a] u run_a m
  show ?thesis by simp
qed

section \<open>Yaw and scale\<close>

text \<open>
  C9. With draws of \<^verbatim>\<open>random.random\<close> in the unit interval (0 included, 1 not), every
  accepted candidate has a yaw of 360 times one draw, so from 0 to 360 degrees with 360
  excluded, and one scale factor, \<open>min_scale\<close> plus one draw times the width of the
  interval, so from \<open>min_scale\<close> to \<open>max_scale\<close>. The object made for the candidate has the
  yaw, in radians, as its rotation about z and the factor as its scale on all three axes.
  How the draws are distributed is the host's matter.
\<close>

theorem yaw_and_scale_of_accepted:
  assumes "\<forall>n. 0 \<le> random h n \<and> random h n < 1"
    and "scatter_run h r w = (Inr st, w') \<or> scatter_run_single h r w = (Inr st, w')"
    and "p \<in> set (accepted st)"
  shows "(\<exists>k. p_yaw p = 360 * random h k) \<and> 0 \<le> p_yaw p \<and> p_yaw p < 360 \<and>
         (\<exists>k. p_scale p = min_scale r + (max_scale r - min_scale r) * random h k) \<and>
         min_scale r \<le> p_scale p \<and> p_scale p \<le> max_scale r \<and>
         (\<exists>ob. deref (p_root p) w' = Some ob \<and>
               snd (snd (rotation_euler ob)) = radians (p_yaw p) \<and>
               scale ob = (p_scale p, p_scale p, p_scale p))"
proof -
  from assms(2) have le: "min_scale r \<le> max_scale r"
    using scatter_run_success(3) scatter_run_single_success(3) by blast
  from accepted_facts [OF assms(2,3)]
  obtain k1 k2 ob where y: "p_yaw p = 360 * random h k1"
    and s: "p_scale p = min_scale r + (max_scale r - min_scale r) * random h k2"
    and ob: "deref (p_root p) w' = Some ob" "snd (snd (rotation_euler ob)) = radians (p_yaw p)"
      "scale ob = (p_scale p, p_scale p, p_scale p)"
    by blast
  from assms(1) have u1: "0 \<le> random h k1" "random h k1 < 1"
    and u2: "0 \<le> random h k2" "random h k2 < 1" by simp_all
  have "(max_scale r - min_scale r) * random h k2 \<le> (max_scale r - min_scale r) * 1"
    using le u2 by (intro mult_left_mono) simp_all
  moreover have "0 \<le> (max_scale r - min_scale r) * random h k2"
    using le u2 by simp
  ultimately have "min_scale r \<le> p_scale p" "p_scale p \<le> max_scale r"
    using s by simp_all
  moreover have "0 \<le> p_yaw p" "p_yaw p < 360" using y u1 by simp_all
  ultimately show ?thesis using y s ob by blast
qed

theorem yaw_and_scale_of_accepted_witness:
  "(\<forall>n. 0 \<le> random host_a n \<and> random host_a n < 1) \<and>
   scatter_run host_a req0 world0 = (Inr st_a, w_a) \<and>
   accepted st_a ! 0 \<in> set (accepted st_a) \<and>
   0 \<le> p_yaw (accepted st_a ! 0) \<and> p_yaw (accepted st_a ! 0) < 360 \<and>
   min_scale req0 \<le> p_scale (accepted st_a ! 0) \<and> p_scale (accepted st_a ! 0) \<le> max_scale req0"
proof -
  have m: "accepted st_a ! 0 \<in> set (accepted st_a)" by (simp add: run_a_length)
  from yaw_and_scale_of_accepted [OF host_a_unit disjI1 m, OF run_a] host_a_unit run_a m
  show ?thesis by simp
qed

section \<open>Clearing and filling the target collection\<close>

text \<open>
  \<open>scene_ok\<close> is what Blender keeps true of a scene: the parent of an object is an object
  of the file, and so is every member of a collection.

  The instances in a collection are its members that are not the child of a member: the
  objects a placement got back from the copy, and not the copies of their children.
\<close>

definition instances :: "string \<Rightarrow> world \<Rightarrow> obj_name list" where
  "instances c w =
     filter (\<lambda>n. case deref n w of
                  None \<Rightarrow> False
                | Some ob \<Rightarrow> (case parent ob of
                               None \<Rightarrow> True
                             | Some p \<Rightarrow> p \<notin> set (col_objects c w)))
       (col_objects c w)"

definition unparent :: "obj_name set \<Rightarrow> obj_name \<times> obj \<Rightarrow> obj_name \<times> obj" where
  "unparent A e = (fst e, if parent (snd e) \<in> Some ` A then (snd e)\<lparr>parent := None\<rparr> else snd e)"

lemma unparent_empty [simp]: "unparent {} e = e"
  by (simp add: unparent_def)

lemma unparent_insert: "unparent {n} (unparent A e) = unparent (insert n A) e"
  by (auto simp: unparent_def)

lemma objects_remove_alt:
  "objects_remove n w =
     w\<lparr>objects := map (unparent {n}) (filter (\<lambda>e. fst e \<noteq> n) (objects w)),
       collections := map (\<lambda>e. (fst e, filter (\<lambda>m. m \<noteq> n) (snd e))) (collections w)\<rparr>"
proof -
  have a: "(\<lambda>(k, ob). (k, if parent ob = Some n then ob\<lparr>parent := None\<rparr> else ob)) = unparent {n}"
    by (auto simp: unparent_def fun_eq_iff)
  have b: "(\<lambda>(k, ob). k \<noteq> n) = (\<lambda>e. fst e \<noteq> n)"
    by (auto simp: fun_eq_iff)
  have c: "(\<lambda>(k, ms). (k, filter (\<lambda>m. m \<noteq> n) ms)) = (\<lambda>e. (fst e, filter (\<lambda>m. m \<noteq> n) (snd e)))"
    by (auto simp: fun_eq_iff)
  show ?thesis unfolding objects_remove_def a
    by (simp only: b c)
qed

lemma fst_unparent [simp]: "fst (unparent A e) = fst e"
  by (simp add: unparent_def)

lemma fold_remove:
  "fold objects_remove ns w =
     w\<lparr>objects := map (unparent (set ns)) (filter (\<lambda>e. fst e \<notin> set ns) (objects w)),
       collections := map (\<lambda>e. (fst e, filter (\<lambda>m. m \<notin> set ns) (snd e))) (collections w)\<rparr>"
proof (induction ns arbitrary: w)
  case Nil
  then show ?case by simp
next
  case (Cons n ns)
  have f: "filter (\<lambda>e. fst e \<notin> set ns) (map (unparent {n}) (filter (\<lambda>e. fst e \<noteq> n) (objects w)))
           = map (unparent {n}) (filter (\<lambda>e. fst e \<notin> set (n # ns)) (objects w))"
    by (induction "objects w") (auto simp: filter_map comp_def)
  have u: "unparent (set ns) \<circ> unparent {n} = unparent (insert n (set ns))"
    by (auto simp: unparent_def fun_eq_iff)
  have c: "(\<lambda>e. (fst e, filter (\<lambda>m. m \<notin> set ns) (snd e))) \<circ>
             (\<lambda>e. (fst e, filter (\<lambda>m. m \<noteq> n) (snd e)))
           = (\<lambda>e::string \<times> obj_name list. (fst e, filter (\<lambda>m. m \<noteq> n \<and> m \<notin> set ns) (snd e)))"
    by (auto simp: fun_eq_iff conj_commute)
  show ?case
    apply (simp only: fold_simps Cons.IH)
    apply (simp only: objects_remove_alt)
    using f by (simp add: u c)
qed


lemma map_of_map_snd:
  "map_of (map (\<lambda>e. (fst e, f (snd e))) xs) k = map_option f (map_of xs k)"
  by (induction xs) auto

lemma map_of_link_names:
  "map_of (link_names c ns cs) k =
     map_option (\<lambda>ms. if k = c then ms @ ns else ms) (map_of cs k)"
  by (induction cs) (auto simp: link_names_def)

lemma col_objects_grows:
  assumes "grows c a w w'" and "map_of (collections w) c \<noteq> None"
  shows "col_objects c w' = col_objects c w @ map fst a"
  using assms by (auto simp: grows_def col_objects_def map_of_link_names)

definition scene_ok :: "world \<Rightarrow> bool" where
  "scene_ok w \<longleftrightarrow>
     (\<forall>e \<in> set (objects w). \<forall>p. parent (snd e) = Some p \<longrightarrow> live p w) \<and>
     (\<forall>e \<in> set (collections w). \<forall>m \<in> set (snd e). live m w)"

lemma scene_ok_parent:
  "scene_ok w \<Longrightarrow> e \<in> set (objects w) \<Longrightarrow> parent (snd e) = Some p \<Longrightarrow> live p w"
  unfolding scene_ok_def by blast

lemma scene_ok_member:
  "scene_ok w \<Longrightarrow> e \<in> set (collections w) \<Longrightarrow> m \<in> set (snd e) \<Longrightarrow> live m w"
  unfolding scene_ok_def by blast

lemma prepare_eq:
  "prepare c w =
     (let w1 = snd (get_or_create_collection c w); ns = col_objects c w1
      in w1\<lparr>objects := map (unparent (set ns)) (filter (\<lambda>e. fst e \<notin> set ns) (objects w1)),
            collections := map (\<lambda>e. (fst e, filter (\<lambda>m. m \<notin> set ns) (snd e))) (collections w1)\<rparr>)"
  by (simp add: prepare_def clear_collection_def fold_remove Let_def)

lemma get_or_create_collection_snd:
  "snd (get_or_create_collection c w) =
     (if map_of (collections w) c = None
      then w\<lparr>collections := collections w @ [(c, [])], scene_children := scene_children w @ [c]\<rparr>
      else w)"
  by (auto simp: get_or_create_collection_def split: option.splits)

lemma get_or_create_exists:
  "map_of (collections (snd (get_or_create_collection c w))) c \<noteq> None"
  by (cases "map_of (collections w) c") (simp_all add: get_or_create_collection_snd map_add_def)

lemma get_or_create_objects [simp]:
  "objects (snd (get_or_create_collection c w)) = objects w"
  "rng (snd (get_or_create_collection c w)) = rng w"
  by (simp_all add: get_or_create_collection_snd)

lemma get_or_create_scene_ok:
  "scene_ok w \<Longrightarrow> scene_ok (snd (get_or_create_collection c w))"
  by (auto simp: get_or_create_collection_snd scene_ok_def live_iff)

lemma prepare_rng [simp]: "rng (prepare c w) = rng w"
  by (simp add: prepare_eq Let_def)

lemma prepare_exists: "map_of (collections (prepare c w)) c \<noteq> None"
  using get_or_create_exists [of c w]
  by (simp add: prepare_eq Let_def map_of_map_snd)

lemma prepare_empty: "col_objects c (prepare c w) = []"
proof -
  let ?w1 = "snd (get_or_create_collection c w)"
  have "col_objects c (prepare c w) =
          filter (\<lambda>m. m \<notin> set (col_objects c ?w1)) (col_objects c ?w1)"
    by (simp add: prepare_eq Let_def col_objects_def map_of_map_snd split: option.splits)
  then show ?thesis by simp
qed

lemma live_filtered:
  "live n (w\<lparr>objects := map (unparent A) (filter (\<lambda>e. fst e \<notin> A) (objects w)), collections := cs\<rparr>)
     \<longleftrightarrow> live n w \<and> n \<notin> A"
proof -
  have "fst ` set (map (unparent A) (filter (\<lambda>e. fst e \<notin> A) (objects w)))
          = fst ` set (filter (\<lambda>e. fst e \<notin> A) (objects w))"
    by (simp add: image_image)
  also have "\<dots> = {n \<in> fst ` set (objects w). n \<notin> A}" by force
  finally show ?thesis by (simp add: live_iff)
qed

lemma prepare_scene_ok:
  assumes "scene_ok w"
  shows "scene_ok (prepare c w)"
proof -
  let ?w1 = "snd (get_or_create_collection c w)"
  let ?A = "set (col_objects c ?w1)"
  have ok1: "scene_ok ?w1" by (rule get_or_create_scene_ok [OF assms])
  show ?thesis
    unfolding prepare_eq Let_def scene_ok_def live_filtered
  proof (intro conjI ballI allI impI)
    fix e p
    assume e: "e \<in> set (objects (?w1\<lparr>objects := map (unparent ?A) (filter (\<lambda>e. fst e \<notin> ?A) (objects ?w1)),
            collections := map (\<lambda>e. (fst e, filter (\<lambda>m. m \<notin> ?A) (snd e))) (collections ?w1)\<rparr>))"
      and p: "parent (snd e) = Some p"
    from e obtain e0 where e0: "e0 \<in> set (objects ?w1)" "e = unparent ?A e0" by auto
    with p have pe: "parent (snd e0) = Some p" "p \<notin> ?A"
      by (auto simp: unparent_def split: if_splits)
    with e0 have "live p ?w1" by (intro scene_ok_parent [OF ok1 e0(1)])
    with pe show "live p ?w1" "p \<notin> ?A" by simp_all
  next
    fix e m
    assume e: "e \<in> set (collections (?w1\<lparr>objects := map (unparent ?A) (filter (\<lambda>e. fst e \<notin> ?A) (objects ?w1)),
            collections := map (\<lambda>e. (fst e, filter (\<lambda>m. m \<notin> ?A) (snd e))) (collections ?w1)\<rparr>))"
      and m: "m \<in> set (snd e)"
    from e obtain e0 where e0: "e0 \<in> set (collections ?w1)"
      "e = (fst e0, filter (\<lambda>m. m \<notin> ?A) (snd e0))" by auto
    with m have "m \<in> set (snd e0)" "m \<notin> ?A" by auto
    moreover from this e0 have "live m ?w1" by (intro scene_ok_member [OF ok1 e0(1)])
    ultimately show "live m ?w1" "m \<notin> ?A" by simp_all
  qed
qed


lemma grows_fresh: "grows c a w w' \<Longrightarrow> n \<in> fst ` set a \<Longrightarrow> \<not> live n w"
  unfolding grows_def by blast

lemma prepare_again:
  assumes g: "grows c a w0 w'"
    and ok: "scene_ok w0"
    and empty: "col_objects c w0 = []"
    and ex: "map_of (collections w0) c \<noteq> None"
  shows "prepare c (w'\<lparr>rng := rng w0\<rparr>) = w0"
proof -
  let ?A = "fst ` set a"
  let ?w = "w'\<lparr>rng := rng w0\<rparr>"
  from g have ob: "objects w' = objects w0 @ a"
    and co: "collections w' = link_names c (map fst a) (collections w0)"
    and sc: "scene_children w' = scene_children w0"
    by (simp_all add: grows_def)
  have ex': "map_of (collections ?w) c \<noteq> None"
    using ex co by (simp add: map_of_link_names)
  then have w1: "snd (get_or_create_collection c ?w) = ?w"
    by (simp add: get_or_create_collection_snd)
  have ns: "col_objects c ?w = map fst a"
    using col_objects_grows [OF g ex] empty by (simp add: col_objects_def)
  have old: "\<And>e. e \<in> set (objects w0) \<Longrightarrow> fst e \<notin> ?A"
  proof
    fix e assume "e \<in> set (objects w0)" and "fst e \<in> ?A"
    then have "live (fst e) w0" and "\<not> live (fst e) w0"
      using grows_fresh [OF g, of "fst e"] by (auto simp: live_iff)
    then show False by simp
  qed
  have new: "\<And>e. e \<in> set a \<Longrightarrow> \<not> fst e \<notin> ?A" by simp
  have f: "filter (\<lambda>e. fst e \<notin> ?A) (objects w0 @ a) = objects w0"
    using old new by (simp add: filter_id_conv filter_empty_conv)
  have up: "\<And>e. e \<in> set (objects w0) \<Longrightarrow> unparent ?A e = e"
  proof -
    fix e assume e: "e \<in> set (objects w0)"
    have "parent (snd e) \<notin> Some ` ?A"
    proof
      assume "parent (snd e) \<in> Some ` ?A"
      then obtain p where p: "p \<in> ?A" "parent (snd e) = Some p" by auto
      from scene_ok_parent [OF ok e p(2)] grows_fresh [OF g p(1)] show False by simp
    qed
    then show "unparent ?A e = e" by (simp add: unparent_def)
  qed
  have objs: "map (unparent ?A) (filter (\<lambda>e. fst e \<notin> ?A) (objects w0 @ a)) = objects w0"
    unfolding f using up by (simp add: map_idI)
  have mem: "\<And>e m. e \<in> set (collections w0) \<Longrightarrow> m \<in> set (snd e) \<Longrightarrow> m \<notin> ?A"
    using scene_ok_member [OF ok] grows_fresh [OF g] by blast
  have cols: "map (\<lambda>e. (fst e, filter (\<lambda>m. m \<notin> ?A) (snd e))) (link_names c (map fst a) (collections w0))
              = collections w0"
  proof -
    have "\<And>e. e \<in> set (collections w0) \<Longrightarrow>
            (\<lambda>e. (fst e, filter (\<lambda>m. m \<notin> ?A) (snd e)))
              ((\<lambda>(k, ms). if k = c then (k, ms @ map fst a) else (k, ms)) e) = e"
    proof -
      fix e assume e: "e \<in> set (collections w0)"
      have "filter (\<lambda>m. m \<notin> ?A) (snd e) = snd e"
        using mem [OF e] by (simp add: filter_id_conv)
      moreover have "filter (\<lambda>m. m \<notin> ?A) (map fst a) = []"
        by (simp add: filter_empty_conv)
      ultimately show "(\<lambda>e. (fst e, filter (\<lambda>m. m \<notin> ?A) (snd e)))
              ((\<lambda>(k, ms). if k = c then (k, ms @ map fst a) else (k, ms)) e) = e"
        by (cases e) auto
    qed
    then show ?thesis by (simp add: link_names_def map_idI)
  qed
  show ?thesis
    unfolding prepare_eq Let_def w1 ns
    using objs cols sc ob co by (intro world.equality) simp_all
qed


definition roots :: "loop_state \<Rightarrow> obj_name list" where
  "roots st = map p_root (accepted st)"

definition made :: "string \<Rightarrow> obj_name \<Rightarrow> world \<Rightarrow> loop_state \<Rightarrow> world \<Rightarrow> bool" where
  "made c src w0 st w \<longleftrightarrow>
     (\<exists>a. grows c a w0 w \<and>
          filter (\<lambda>n. n \<in> set (roots st)) (map fst a) = roots st \<and>
          (a = [] \<or> live src w0) \<and>
          (\<forall>e \<in> set a.
             if fst e \<in> set (roots st)
             then \<exists>os. deref src w0 = Some os \<and> parent (snd e) = parent os
             else \<exists>p \<in> fst ` set a. parent (snd e) = Some p))"

lemma made_start: "made c src w0 start_state w0"
  unfolding made_def by (rule exI [of _ "[]"]) (simp add: grows_refl roots_def start_state_def)

lemma live_rng [simp]: "live n (w\<lparr>rng := g\<rparr>) = live n w"
  by (simp add: live_def)

lemma drawn_live [simp]: "live n (drawn w) = live n w"
  by (simp add: drawn_def)

lemma grows_drawn: "grows c a w0 w \<Longrightarrow> grows c a w0 (drawn w)"
  unfolding drawn_def by (rule grows_rng)

lemma deref_drawn [simp]: "deref n (drawn w) = deref n w"
  by (simp add: drawn_def)

lemma made_step:
  assumes ok: "placer_ok h r0 place"
    and inv: "made c src w0 st w"
    and body: "scatter_body h place r terrain src c (st\<lparr>tries := tries st + 1\<rparr>) w = (Inr st1, w1)"
  shows "made c src w0 st1 w1"
proof -
  let ?st = "st\<lparr>tries := tries st + 1\<rparr>"
  from inv obtain a where g: "grows c a w0 w"
    and fl: "filter (\<lambda>n. n \<in> set (roots st)) (map fst a) = roots st"
    and lv: "a = [] \<or> live src w0"
    and par: "\<forall>e \<in> set a.
             if fst e \<in> set (roots st)
             then \<exists>os. deref src w0 = Some os \<and> parent (snd e) = parent os
             else \<exists>p \<in> fst ` set a. parent (snd e) = Some p"
    unfolding made_def by blast
  from scatter_body_cases [OF ok body]
  consider (same) "st1 = ?st" "w1 = drawn w"
    | (acc) loc face new yaw s where
      "placement_step h r0 src c loc (drawn w) new yaw s w1"
      "accepted st1 = accepted st @
         [\<lparr>p_root = new, p_location = loc, p_face = face, p_yaw = yaw, p_scale = s\<rparr>]"
    by auto
  then show ?thesis
  proof cases
    case same
    have "roots st1 = roots st" using same by (simp add: roots_def)
    with same grows_drawn [OF g] fl lv par show ?thesis
      unfolding made_def by (intro exI [of _ a]) simp
  next
    case acc
    from acc(1) obtain os ob rest where os: "deref src (drawn w) = Some os"
      and g2: "grows c ((new, ob) # rest) (drawn w) w1"
      and inn: "inner (insert new (fst ` set rest)) rest"
      and pob: "parent ob = parent os"
      unfolding placement_step_def by blast
    let ?a = "a @ (new, ob) # rest"
    have R: "roots st1 = roots st @ [new]" using acc(2) by (simp add: roots_def)
    have g': "grows c ?a w0 w1" by (rule grows_trans [OF grows_drawn [OF g] g2])
    have sub: "set (roots st) \<subseteq> fst ` set a"
    proof -
      have "set (roots st) = set (filter (\<lambda>n. n \<in> set (roots st)) (map fst a))"
        using fl by simp
      then show ?thesis by auto
    qed
    have fresh2: "\<And>n. n \<in> set (new # map fst rest) \<Longrightarrow> n \<notin> fst ` set a \<and> \<not> live n w0"
    proof -
      fix n assume "n \<in> set (new # map fst rest)"
      then have "n \<in> fst ` set ((new, ob) # rest)" by force
      from grows_fresh [OF g2 this] live_grows [OF g, of n] show "n \<notin> fst ` set a \<and> \<not> live n w0"
        by simp
    qed
    have new_a: "new \<notin> fst ` set a" using fresh2 [of new] by simp
    have d2: "distinct (new # map fst rest)" using g2 by (simp add: grows_def)
    have rest_R: "\<And>n. n \<in> set (map fst rest) \<Longrightarrow> n \<notin> set (roots st1)"
    proof -
      fix n assume n: "n \<in> set (map fst rest)"
      then have "n \<noteq> new" using d2 by auto
      moreover have "n \<notin> set (roots st)" using fresh2 [of n] n sub by auto
      ultimately show "n \<notin> set (roots st1)" by (simp add: R)
    qed
    have f1: "filter (\<lambda>n. n \<in> set (roots st1)) (map fst a) = roots st"
    proof -
      have "filter (\<lambda>n. n \<in> set (roots st1)) (map fst a) =
            filter (\<lambda>n. n \<in> set (roots st)) (map fst a)"
        using new_a by (intro filter_cong) (auto simp: R)
      with fl show ?thesis by simp
    qed
    have f2: "filter (\<lambda>n. n \<in> set (roots st1)) (map fst rest) = []"
      using rest_R by (simp add: filter_empty_conv)
    have fl': "filter (\<lambda>n. n \<in> set (roots st1)) (map fst ?a) = roots st1"
      using f1 f2 by (simp add: R)
    have src0: "deref src w0 = Some os"
    proof (cases "a = []")
      case True
      with g have "objects w = objects w0" by (simp add: grows_def)
      with os show ?thesis by (simp add: deref_def drawn_def)
    next
      case False
      with lv obtain o0 where o0: "deref src w0 = Some o0" by (auto simp: live_def)
      from extendsD [OF grows_extends [OF g] o0] os show ?thesis using o0 by simp
    qed
    have lv': "?a = [] \<or> live src w0" using src0 by (simp add: live_def)
    have par': "\<forall>e \<in> set ?a.
             if fst e \<in> set (roots st1)
             then \<exists>os. deref src w0 = Some os \<and> parent (snd e) = parent os
             else \<exists>p \<in> fst ` set ?a. parent (snd e) = Some p"
    proof
      fix e assume e: "e \<in> set ?a"
      then consider "e \<in> set a" | "e = (new, ob)" | "e \<in> set rest" by auto
      then show "if fst e \<in> set (roots st1)
             then \<exists>os. deref src w0 = Some os \<and> parent (snd e) = parent os
             else \<exists>p \<in> fst ` set ?a. parent (snd e) = Some p"
      proof cases
        case 1
        then have "fst e \<noteq> new" using new_a by auto
        then have "fst e \<in> set (roots st1) \<longleftrightarrow> fst e \<in> set (roots st)" by (simp add: R)
        with par 1 show ?thesis by (cases "fst e \<in> set (roots st)") auto
      next
        case 2
        with src0 pob show ?thesis by (simp add: R)
      next
        case 3
        then have "fst e \<notin> set (roots st1)" using rest_R by simp
        moreover from inn 3 obtain p where "p \<in> insert new (fst ` set rest)" "parent (snd e) = Some p"
          unfolding inner_def by blast
        ultimately show ?thesis by auto
      qed
    qed
    show ?thesis unfolding made_def
      using g' fl' lv' par' by (intro exI [of _ ?a]) simp
  qed
qed

lemma grows_deref_added:
  assumes "grows c a w w'" and "e \<in> set a"
  shows "deref (fst e) w' = Some (snd e)"
proof -
  from assms have "fst e \<notin> fst ` set (objects w)"
    using grows_fresh [OF assms(1), of "fst e"] by (auto simp: live_iff)
  then have "map_of (objects w) (fst e) = None" by (simp add: map_of_eq_None_iff)
  moreover from assms have "map_of a (fst e) = Some (snd e)"
    by (simp add: grows_def)
  ultimately show ?thesis using assms(1) by (simp add: grows_def deref_def map_add_def)
qed

lemma made_result:
  assumes m: "made c src w0 st w'"
    and ok: "scene_ok w0"
    and empty: "col_objects c w0 = []"
    and ex: "map_of (collections w0) c \<noteq> None"
  shows "instances c w' = roots st" and "scene_ok w'" and "prepare c (w'\<lparr>rng := rng w0\<rparr>) = w0"
proof -
  from m obtain a where g: "grows c a w0 w'"
    and fl: "filter (\<lambda>n. n \<in> set (roots st)) (map fst a) = roots st"
    and lv: "a = [] \<or> live src w0"
    and par: "\<forall>e \<in> set a.
             if fst e \<in> set (roots st)
             then \<exists>os. deref src w0 = Some os \<and> parent (snd e) = parent os
             else \<exists>p \<in> fst ` set a. parent (snd e) = Some p"
    unfolding made_def by blast
  have parR: "\<And>e. e \<in> set a \<Longrightarrow> fst e \<in> set (roots st) \<Longrightarrow>
                \<exists>os. deref src w0 = Some os \<and> parent (snd e) = parent os"
    using par by (meson)
  have parN: "\<And>e. e \<in> set a \<Longrightarrow> fst e \<notin> set (roots st) \<Longrightarrow>
                \<exists>q \<in> fst ` set a. parent (snd e) = Some q"
    using par by (meson)
  show "prepare c (w'\<lparr>rng := rng w0\<rparr>) = w0"
    by (rule prepare_again [OF g ok empty ex])
  have members: "col_objects c w' = map fst a"
    using col_objects_grows [OF g ex] empty by simp
  have src_parent: "\<And>os p. deref src w0 = Some os \<Longrightarrow> parent os = Some p \<Longrightarrow> live p w0"
  proof -
    fix os p assume "deref src w0 = Some os" and p: "parent os = Some p"
    then have "(src, os) \<in> set (objects w0)" by (simp add: deref_def map_of_SomeD)
    from scene_ok_parent [OF ok this] p show "live p w0" by simp
  qed
  have test: "\<And>e. e \<in> set a \<Longrightarrow>
     (case deref (fst e) w' of None \<Rightarrow> False
      | Some ob \<Rightarrow> (case parent ob of None \<Rightarrow> True | Some p \<Rightarrow> p \<notin> set (map fst a)))
     \<longleftrightarrow> fst e \<in> set (roots st)"
  proof -
    fix e assume e: "e \<in> set a"
    have d: "deref (fst e) w' = Some (snd e)" by (rule grows_deref_added [OF g e])
    show "(case deref (fst e) w' of None \<Rightarrow> False
      | Some ob \<Rightarrow> (case parent ob of None \<Rightarrow> True | Some p \<Rightarrow> p \<notin> set (map fst a)))
     \<longleftrightarrow> fst e \<in> set (roots st)"
    proof (cases "fst e \<in> set (roots st)")
      case True
      from parR [OF e True] obtain os where os: "deref src w0 = Some os" "parent (snd e) = parent os"
        by blast
      have "\<And>p. parent os = Some p \<Longrightarrow> p \<notin> fst ` set a"
        using src_parent [OF os(1)] grows_fresh [OF g] by blast
      with True d os show ?thesis by (auto split: option.splits)
    next
      case False
      from parN [OF e False] obtain q where "q \<in> fst ` set a" "parent (snd e) = Some q" by blast
      with False d show ?thesis by simp
    qed
  qed
  have "filter (\<lambda>n. case deref n w' of None \<Rightarrow> False
      | Some ob \<Rightarrow> (case parent ob of None \<Rightarrow> True | Some p \<Rightarrow> p \<notin> set (map fst a))) (map fst a)
        = filter (\<lambda>n. n \<in> set (roots st)) (map fst a)"
  proof (rule filter_cong [OF refl])
    fix n assume "n \<in> set (map fst a)"
    then obtain e where e: "e \<in> set a" "n = fst e" by auto
    from test [OF e(1)] e(2)
    show "(case deref n w' of None \<Rightarrow> False
      | Some ob \<Rightarrow> (case parent ob of None \<Rightarrow> True | Some p \<Rightarrow> p \<notin> set (map fst a)))
       = (n \<in> set (roots st))" by simp
  qed
  then have "instances c w' = filter (\<lambda>n. n \<in> set (roots st)) (map fst a)"
    unfolding instances_def members .
  with fl show "instances c w' = roots st" by simp
  show "scene_ok w'"
    unfolding scene_ok_def
  proof (intro conjI ballI allI impI)
    fix e p assume e: "e \<in> set (objects w')" and p: "parent (snd e) = Some p"
    from e g have "e \<in> set (objects w0) \<or> e \<in> set a" by (auto simp: grows_def)
    then show "live p w'"
    proof
      assume "e \<in> set (objects w0)"
      from scene_ok_parent [OF ok this p] show ?thesis by (simp add: live_grows [OF g])
    next
      assume ea: "e \<in> set a"
      show ?thesis
      proof (cases "fst e \<in> set (roots st)")
        case True
        from parR [OF ea True] obtain os where os: "deref src w0 = Some os" "parent (snd e) = parent os"
          by blast
        with p src_parent [OF os(1), of p] show ?thesis by (simp add: live_grows [OF g])
      next
        case False
        from parN [OF ea False] p show ?thesis by (auto simp: live_grows [OF g])
      qed
    qed
  next
    fix e m assume e: "e \<in> set (collections w')" and mm: "m \<in> set (snd e)"
    from e g obtain e0 where e0: "e0 \<in> set (collections w0)"
      "e = (\<lambda>(k, ms). if k = c then (k, ms @ map fst a) else (k, ms)) e0"
      by (auto simp: grows_def link_names_def)
    with mm have "m \<in> set (snd e0) \<or> m \<in> fst ` set a"
      by (cases e0) (auto split: if_splits)
    then show "live m w'"
    proof
      assume "m \<in> set (snd e0)"
      from scene_ok_member [OF ok e0(1) this] show ?thesis by (simp add: live_grows [OF g])
    next
      assume "m \<in> fst ` set a"
      then show ?thesis by (simp add: live_grows [OF g])
    qed
  qed
qed

lemma loop_regeneration:
  assumes ok: "placer_ok h r0 place"
    and sc: "scene_ok w"
    and loop: "scatter_loop h place r terrain src c m start_state (prepare c w) = (Inr st, w')"
  shows "instances c w' = roots st" and "scene_ok w'"
    and "prepare c (w'\<lparr>rng := rng w\<rparr>) = prepare c w"
proof -
  have "made c src (prepare c w) st w' \<and> \<not> (placed st < count r \<and> tries st < m)"
    by (rule scatter_loop_invariant [OF loop, where I = "made c src (prepare c w)"])
       (auto intro: made_start made_step [OF ok])
  then have m: "made c src (prepare c w) st w'" by simp
  note res = made_result [OF m prepare_scene_ok [OF sc] prepare_empty prepare_exists]
  from res show "instances c w' = roots st" and "scene_ok w'" by simp_all
  from res(3) show "prepare c (w'\<lparr>rng := rng w\<rparr>) = prepare c w" by simp
qed


lemma scene_ok_rng [simp]: "scene_ok (w\<lparr>rng := g\<rparr>) = scene_ok w"
  by (simp add: scene_ok_def)

lemma variant_loop:
  assumes "run = scatter_run \<or> run = scatter_run_single"
    and "run h r w = (Inr st, w')"
  shows "\<exists>place r'. placer_ok h r place \<and>
           scatter_loop h place r' terrain_name (source_obj_name r) (target_collection_name r)
             (count r * 40) start_state (prepare (target_collection_name r) w) = (Inr st, w') \<and>
           placed st = int (length (accepted st))"
  using assms(1)
proof
  assume "run = scatter_run"
  with assms(2) have run: "scatter_run h r w = (Inr st, w')" by simp
  from scatter_run_success(4) [OF run] place_with_children_ok [of h r] scatter_run_inv [OF run]
  show ?thesis unfolding run_inv_def by blast
next
  assume "run = scatter_run_single"
  with assms(2) have run: "scatter_run_single h r w = (Inr st, w')" by simp
  from scatter_run_single_success(4) [OF run] place_single_ok [of h r]
    scatter_run_single_inv [OF run]
  show ?thesis unfolding run_inv_def by blast
qed

text \<open>
  C3. Let a run of either variant return, in a scene as Blender keeps it, and let a
  second run of the same request follow in the scene that the first one left, with the
  random generator in any state. After each of the two runs the instances in the target
  collection are exactly the objects made for the candidates that this run accepted,
  in the order of acceptance, and their number is the accepted count returned; so the
  second run leaves its own instances and none of the first. If the generator is in the
  state in which the first run started (the same seed), the second run accepts the same
  candidates and ends in the same scene.
\<close>

theorem regeneration_replaces_instances:
  assumes "run = scatter_run \<or> run = scatter_run_single"
    and "scene_ok w"
    and "run h r w = (Inr st1, w1)"
    and "run h r (w1\<lparr>rng := g\<rparr>) = (Inr st2, w2)"
  shows "instances (target_collection_name r) w1 = map p_root (accepted st1) \<and>
         int (length (instances (target_collection_name r) w1)) = placed st1 \<and>
         instances (target_collection_name r) w2 = map p_root (accepted st2) \<and>
         int (length (instances (target_collection_name r) w2)) = placed st2 \<and>
         (g = rng w \<longrightarrow> st2 = st1 \<and> w2 = w1)"
proof -
  let ?c = "target_collection_name r"
  from variant_loop [OF assms(1,3)] obtain place1 r1 where ok1: "placer_ok h r place1"
    and loop1: "scatter_loop h place1 r1 terrain_name (source_obj_name r) ?c
             (count r * 40) start_state (prepare ?c w) = (Inr st1, w1)"
    and n1: "placed st1 = int (length (accepted st1))"
    by blast
  note first = loop_regeneration [OF ok1 assms(2) loop1]
  from variant_loop [OF assms(1,4)] obtain place2 r2 where ok2: "placer_ok h r place2"
    and loop2: "scatter_loop h place2 r2 terrain_name (source_obj_name r) ?c
             (count r * 40) start_state (prepare ?c (w1\<lparr>rng := g\<rparr>)) = (Inr st2, w2)"
    and n2: "placed st2 = int (length (accepted st2))"
    by blast
  have "scene_ok (w1\<lparr>rng := g\<rparr>)" using first(2) by simp
  note second = loop_regeneration [OF ok2 this loop2]
  have same: "g = rng w \<longrightarrow> st2 = st1 \<and> w2 = w1"
  proof
    assume g: "g = rng w"
    from assms(1) show "st2 = st1 \<and> w2 = w1"
    proof
      assume v: "run = scatter_run"
      from scatter_run_success(4) [of h r w st1 w1] scatter_run_success(4) [of h r "w1\<lparr>rng := g\<rparr>" st2 w2]
        assms(3,4) v first(3) g
      show ?thesis by simp
    next
      assume v: "run = scatter_run_single"
      from scatter_run_single_success(4) [of h r w st1 w1]
        scatter_run_single_success(4) [of h r "w1\<lparr>rng := g\<rparr>" st2 w2]
        assms(3,4) v first(3) g
      show ?thesis by simp
    qed
  qed
  from first(1) second(1) n1 n2 same show ?thesis
    by (simp add: roots_def)
qed

definition st_a2 :: loop_state where
  "st_a2 = projr (fst (scatter_run host_a req0 (w_a\<lparr>rng := 0\<rparr>)))"

definition w_a2 :: world where
  "w_a2 = snd (scatter_run host_a req0 (w_a\<lparr>rng := 0\<rparr>))"

lemma run_a2_returns: "\<not> isl (fst (scatter_run host_a req0 (w_a\<lparr>rng := 0\<rparr>)))"
  unfolding w_a_def by code_simp

lemma run_a2: "scatter_run host_a req0 (w_a\<lparr>rng := 0\<rparr>) = (Inr st_a2, w_a2)"
  using run_a2_returns by (simp add: st_a2_def w_a2_def prod_eq_iff)

lemma world0_ok: "scene_ok world0"
  by (simp add: scene_ok_def live_iff world0_def plane_obj_def tree_obj_def crown_obj_def)

theorem regeneration_replaces_instances_witness:
  "scene_ok world0 \<and> scatter_run host_a req0 world0 = (Inr st_a, w_a) \<and>
   scatter_run host_a req0 (w_a\<lparr>rng := 0\<rparr>) = (Inr st_a2, w_a2) \<and>
   instances ''Generated_Trees'' w_a = [(''tree'', 1), (''tree'', 2)] \<and>
   placed st_a = 2 \<and>
   instances ''Generated_Trees'' w_a2 = [(''tree'', 1), (''tree'', 2)] \<and>
   st_a2 = st_a \<and> w_a2 = w_a"
proof -
  have g: "(0::nat) = rng world0" by (simp add: world0_def)
  have c: "target_collection_name req0 = ''Generated_Trees''" by (simp add: req0_def)
  from regeneration_replaces_instances
         [where run = scatter_run, OF disjI1 [OF refl] world0_ok run_a run_a2] g c
    world0_ok run_a run_a2 run_a_roots run_a_length
  show ?thesis by auto
qed

section \<open>A terrain without the vertex group\<close>

text \<open>
  \<open>no_group terrain w\<close>: the terrain, if it is an object of the scene, has no vertex group
  \<^verbatim>\<open>NoTrees\<close>. The run keeps this true: it changes no object that was there, and the names
  of the objects it adds have a suffix, which the terrain's name has not.
\<close>

definition no_group :: "obj_name \<Rightarrow> world \<Rightarrow> bool" where
  "no_group terrain w \<longleftrightarrow>
     (\<forall>t. deref terrain w = Some t \<longrightarrow> map_of (vertex_groups t) no_trees_vgroup = None)"

lemma no_group_on_path:
  assumes "no_group terrain w" and "0 \<le> path_threshold r"
    and "deref terrain w \<noteq> None"
  shows "on_path r terrain face w = Inr False"
  using assms by (auto simp: on_path_def no_group_def vgroup_weight_at_face_avg_def)

lemma raycast_hit_live:
  "raycast_to_terrain h terrain x y z w = Inr (Some lf) \<Longrightarrow> deref terrain w \<noteq> None"
  by (auto simp: raycast_to_terrain_def split: option.splits prod.splits if_splits)

lemma scatter_body_no_group:
  assumes "no_group terrain w" and "0 \<le> path_threshold r"
  shows "scatter_body h place (r\<lparr>use_vgroup := True\<rparr>) terrain src col st w =
         scatter_body h place (r\<lparr>use_vgroup := False\<rparr>) terrain src col st w"
proof -
  let ?x = "- area r + (area r - - area r) * random h (rng w)"
  let ?y = "- area r + (area r - - area r) * random h (Suc (rng w))"
  let ?w2 = "drawn w"
  have ng: "no_group terrain ?w2" using assms(1) by (simp add: no_group_def deref_drawn)
  show ?thesis
  proof (cases "raycast_to_terrain h terrain ?x ?y (z_start r) ?w2")
    case (Inl e)
    then show ?thesis by (simp add: scatter_body_def uniform_def drawn_def Let_def)
  next
    case (Inr hit)
    show ?thesis
    proof (cases hit)
      case None
      with Inr show ?thesis by (simp add: scatter_body_def uniform_def drawn_def Let_def)
    next
      case (Some lf)
      obtain loc face where lf: "lf = (loc, face)" by (cases lf)
      from Inr Some have "deref terrain ?w2 \<noteq> None" by (auto dest: raycast_hit_live)
      from no_group_on_path [OF ng _ this, of "r\<lparr>use_vgroup := True\<rparr>" face] assms(2)
      have "on_path (r\<lparr>use_vgroup := True\<rparr>) terrain face ?w2 = Inr False" by simp
      moreover have "on_path (r\<lparr>use_vgroup := False\<rparr>) terrain face ?w2 = Inr False"
        by (simp add: on_path_def)
      ultimately show ?thesis using Inr Some lf
        by (simp add: scatter_body_def uniform_def drawn_def Let_def too_close_def)
    qed
  qed
qed

lemma grows_deref_plain:
  assumes "grows c a w w'" and "snd n = 0"
  shows "deref n w' = deref n w"
proof -
  have "n \<notin> fst ` set a" using assms by (auto simp: grows_def)
  then have "map_of a n = None" by (simp add: map_of_eq_None_iff)
  with assms(1) show ?thesis
    by (cases "map_of (objects w) n") (simp_all add: grows_def deref_def map_add_def)
qed

lemma no_group_step:
  assumes ok: "placer_ok h r0 place" and t0: "snd terrain = 0"
    and ng: "no_group terrain w"
    and body: "scatter_body h place r terrain src col st w = (Inr st1, w1)"
  shows "no_group terrain w1"
proof -
  from scatter_body_cases [OF ok body]
  have "w1 = drawn w \<or> (\<exists>loc new yaw s. placement_step h r0 src col loc (drawn w) new yaw s w1)"
    by blast
  then have "deref terrain w1 = deref terrain w"
  proof
    assume "w1 = drawn w"
    then show ?thesis by (simp add: deref_drawn)
  next
    assume "\<exists>loc new yaw s. placement_step h r0 src col loc (drawn w) new yaw s w1"
    then obtain a where "grows col a (drawn w) w1" unfolding placement_step_def by blast
    from grows_deref_plain [OF this t0] show ?thesis by (simp add: deref_drawn)
  qed
  with ng show ?thesis by (simp add: no_group_def)
qed

lemma scatter_loop_no_group:
  assumes ok: "placer_ok h r0 place" and t0: "snd terrain = 0"
    and thr: "0 \<le> path_threshold r"
  shows "no_group terrain w \<Longrightarrow>
         scatter_loop h place (r\<lparr>use_vgroup := True\<rparr>) terrain src col m st w =
         scatter_loop h place (r\<lparr>use_vgroup := False\<rparr>) terrain src col m st w"
proof (induction "nat (m - tries st)" arbitrary: st w rule: less_induct)
  case less
  let ?rt = "r\<lparr>use_vgroup := True\<rparr>" and ?rf = "r\<lparr>use_vgroup := False\<rparr>"
  let ?st = "st\<lparr>tries := tries st + 1\<rparr>"
  show ?case
  proof (cases "placed st < count r \<and> tries st < m")
    case False
    then show ?thesis by (simp add: scatter_loop_stop)
  next
    case True
    have beq: "scatter_body h place ?rt terrain src col ?st w =
               scatter_body h place ?rf terrain src col ?st w"
      by (rule scatter_body_no_group [OF less.prems thr])
    obtain res w1 where body: "scatter_body h place ?rt terrain src col ?st w = (res, w1)"
      by (cases "scatter_body h place ?rt terrain src col ?st w")
    show ?thesis
    proof (cases res)
      case (Inl e)
      with body beq True show ?thesis by (simp add: scatter_loop_error)
    next
      case (Inr st1)
      from body Inr have b1: "scatter_body h place ?rt terrain src col ?st w = (Inr st1, w1)" by simp
      with beq have b2: "scatter_body h place ?rf terrain src col ?st w = (Inr st1, w1)" by simp
      have t1: "tries st1 = tries st + 1" using scatter_body_tries [OF b1] by simp
      have ng1: "no_group terrain w1" by (rule no_group_step [OF ok t0 less.prems b1])
      have "scatter_loop h place ?rt terrain src col m st1 w1 =
            scatter_loop h place ?rf terrain src col m st1 w1"
        using True t1 by (intro less.hyps [OF _ ng1]) simp
      moreover have "scatter_loop h place ?rt terrain src col m st w =
                     scatter_loop h place ?rt terrain src col m st1 w1"
        using True b1 by (intro scatter_loop_step) simp_all
      moreover have "scatter_loop h place ?rf terrain src col m st w =
                     scatter_loop h place ?rf terrain src col m st1 w1"
        using True b2 by (intro scatter_loop_step) simp_all
      ultimately show ?thesis by simp
    qed
  qed
qed


lemma map_of_cleared:
  "map_of (map (unparent A) (filter (\<lambda>e. fst e \<notin> A) xs)) n =
     (if n \<in> A then None else map_option (\<lambda>ob. snd (unparent A (n, ob))) (map_of xs n))"
  by (induction xs) (auto simp: unparent_def)

lemma prepare_no_group:
  assumes "no_group terrain w"
  shows "no_group terrain (prepare c w)"
  unfolding no_group_def
proof (intro allI impI)
  fix t
  assume "deref terrain (prepare c w) = Some t"
  then obtain ob where "deref terrain w = Some ob" and "t = snd (unparent (set (col_objects c (snd (get_or_create_collection c w)))) (terrain, ob))"
    by (auto simp: prepare_eq Let_def deref_def map_of_cleared split: if_splits)
  with assms show "map_of (vertex_groups t) no_trees_vgroup = None"
    by (simp add: no_group_def unparent_def)
qed

lemma place_with_children_use_vgroup [simp]:
  "place_with_children h (r\<lparr>use_vgroup := b\<rparr>) = place_with_children h r"
  by (auto simp: place_with_children_def fun_eq_iff split: prod.splits sum.splits)

lemma scatter_run_no_group:
  assumes "no_group terrain_name w" and "0 \<le> path_threshold r"
  shows "scatter_run h (r\<lparr>use_vgroup := True\<rparr>) w = scatter_run h (r\<lparr>use_vgroup := False\<rparr>) w"
proof -
  have t0: "snd terrain_name = 0" by (simp add: terrain_name_def)
  have "\<And>src. scatter_loop h (place_with_children h r) (r\<lparr>use_vgroup := True\<rparr>) terrain_name src
          (target_collection_name r) (count r * 40) start_state (prepare (target_collection_name r) w)
        = scatter_loop h (place_with_children h r) (r\<lparr>use_vgroup := False\<rparr>) terrain_name src
          (target_collection_name r) (count r * 40) start_state (prepare (target_collection_name r) w)"
    by (rule scatter_loop_no_group [OF place_with_children_ok t0 assms(2) prepare_no_group [OF assms(1)]])
  then show ?thesis
    by (auto simp: scatter_run_def prepare_def Let_def case_prod_beta objects_get_def
        split: option.splits)
qed

text \<open>
  C8. When the terrain has no vertex group of the name, the weight of every face is 0.0,
  also for a face index that the mesh does not have. With a threshold that is not
  negative the weight test then rejects no candidate and raises nothing: the test of an
  iteration answers "not on the path", the run of the variant with children with
  \<open>use_vgroup\<close> set is the run with \<open>use_vgroup\<close> not set, result and scene, and the loop
  of the other variant, which always tests, is the same loop without the test.
\<close>

theorem missing_group_is_no_filter:
  assumes "deref terrain_name w = Some t"
    and "map_of (vertex_groups t) no_trees_vgroup = None"
  shows "vgroup_weight_at_face_avg terrain_name no_trees_vgroup f w = Inr 0 \<and>
         (0 \<le> path_threshold r \<longrightarrow>
            on_path (r\<lparr>use_vgroup := True\<rparr>) terrain_name f w = Inr False \<and>
            scatter_on_terrain h (r\<lparr>use_vgroup := True\<rparr>) w =
              scatter_on_terrain h (r\<lparr>use_vgroup := False\<rparr>) w \<and>
            (\<forall>src m.
               scatter_loop h (place_single h r) (r\<lparr>use_vgroup := True\<rparr>) terrain_name src
                 (target_collection_name r) m start_state (prepare (target_collection_name r) w) =
               scatter_loop h (place_single h r) (r\<lparr>use_vgroup := False\<rparr>) terrain_name src
                 (target_collection_name r) m start_state (prepare (target_collection_name r) w)))"
proof -
  have ng: "no_group terrain_name w" using assms by (simp add: no_group_def)
  have t0: "snd terrain_name = 0" by (simp add: terrain_name_def)
  have a: "vgroup_weight_at_face_avg terrain_name no_trees_vgroup f w = Inr 0"
    by (rule vgroup_absent [OF assms])
  have b: "0 \<le> path_threshold r \<Longrightarrow> on_path (r\<lparr>use_vgroup := True\<rparr>) terrain_name f w = Inr False"
    using no_group_on_path [OF ng, of "r\<lparr>use_vgroup := True\<rparr>" f] assms(1) by simp
  have c: "0 \<le> path_threshold r \<Longrightarrow> scatter_on_terrain h (r\<lparr>use_vgroup := True\<rparr>) w =
              scatter_on_terrain h (r\<lparr>use_vgroup := False\<rparr>) w"
    using scatter_run_no_group [OF ng, of r h] by (simp add: scatter_on_terrain_def)
  have d: "0 \<le> path_threshold r \<Longrightarrow> (\<forall>src m.
               scatter_loop h (place_single h r) (r\<lparr>use_vgroup := True\<rparr>) terrain_name src
                 (target_collection_name r) m start_state (prepare (target_collection_name r) w) =
               scatter_loop h (place_single h r) (r\<lparr>use_vgroup := False\<rparr>) terrain_name src
                 (target_collection_name r) m start_state (prepare (target_collection_name r) w))"
    using scatter_loop_no_group [OF place_single_ok t0 _ prepare_no_group [OF ng]] by blast
  from a b c d show ?thesis by blast
qed

definition plane_bare :: obj where
  "plane_bare = plane_obj\<lparr>vertex_groups := []\<rparr>"

definition world_bare :: world where
  "world_bare = world0\<lparr>objects := [((''Plane'', 0), plane_bare), ((''tree'', 0), tree_obj),
                                     ((''crown'', 0), crown_obj)]\<rparr>"

theorem missing_group_is_no_filter_witness:
  "deref terrain_name world_bare = Some plane_bare \<and>
   map_of (vertex_groups plane_bare) no_trees_vgroup = None \<and>
   vgroup_weight_at_face_avg terrain_name no_trees_vgroup 7 world_bare = Inr 0 \<and>
   (0::real) \<le> path_threshold req0 \<and>
   scatter_on_terrain host_a (req0\<lparr>use_vgroup := True\<rparr>) world_bare =
     scatter_on_terrain host_a (req0\<lparr>use_vgroup := False\<rparr>) world_bare"
proof -
  have a: "deref terrain_name world_bare = Some plane_bare"
    by (simp add: deref_def world_bare_def terrain_name_def)
  have b: "map_of (vertex_groups plane_bare) no_trees_vgroup = None"
    by (simp add: plane_bare_def)
  have c: "(0::real) \<le> path_threshold req0" by (simp add: req0_def)
  from missing_group_is_no_filter [OF a b, of 7 req0 host_a] a b c show ?thesis by simp
qed

section \<open>The ray to the terrain\<close>

subsection \<open>Runs used as examples\<close>



definition req1 :: request where
  "req1 = req0\<lparr>count := 1\<rparr>"

definition world_curve :: world where
  "world_curve =
     world0\<lparr>objects := [((''Plane'', 0), plane_obj\<lparr>obj_type := ''CURVE'', data := None,
                                                     vertex_groups := []\<rparr>),
                        ((''tree'', 0), tree_obj), ((''crown'', 0), crown_obj)]\<rparr>"











section \<open>Errors of configuration\<close>

text \<open>
  The variant with children raises before it touches the scene when the terrain is
  missing or is not a mesh, when the template is missing, or when the scale range is
  empty. The other variant does so in three of the four cases: it does not look at the
  type of the terrain.
\<close>

lemma configuration_errors_with_children:
  assumes "deref terrain_name w = None \<or>
           (\<exists>t. deref terrain_name w = Some t \<and> obj_type t \<noteq> ''MESH'') \<or>
           deref (source_obj_name r) w = None \<or> max_scale r < min_scale r"
  shows "\<exists>msg. msg \<noteq> [] \<and> scatter_on_terrain h r w = (Inl (RuntimeError msg), w)"
  using assms
  by (auto simp: scatter_on_terrain_def scatter_run_def objects_get_def split: option.splits)

lemma configuration_errors_single:
  assumes "deref terrain_name w = None \<or> deref (source_obj_name r) w = None \<or>
           max_scale r < min_scale r"
  shows "\<exists>msg. msg \<noteq> [] \<and> scatter_on_terrain_single h r w = (Inl (RuntimeError msg), w)"
  using assms
  by (auto simp: scatter_on_terrain_single_def scatter_run_single_def objects_get_def
      split: option.splits)

text \<open>
  C5 at a scene whose \<^verbatim>\<open>Plane\<close> is a curve, not a mesh. The variant with children raises
  \<^verbatim>\<open>RuntimeError\<close> with its message and leaves the scene as it was. The variant under
  \<^verbatim>\<open>scripts/\<close> does not raise: it creates the target collection, which was not there,
  runs its 40 attempts and returns \<open>(0, 40)\<close>.
\<close>

theorem terrain_type_unchecked_in_single:
  "scatter_on_terrain (host0 []) req1 world_curve =
     (Inl (RuntimeError ''Terrain must be mesh''), world_curve) \<and>
   fst (scatter_on_terrain_single (host0 []) req1 world_curve) = Inr (0, 40) \<and>
   get_collection ''Generated_Trees'' world_curve = None \<and>
   get_collection ''Generated_Trees''
     (snd (scatter_on_terrain_single (host0 []) req1 world_curve)) = Some ''Generated_Trees''"
  by code_simp

section \<open>The copy of a template with a child\<close>

text \<open>
  \<open>clones w w'\<close>: every object of \<open>w'\<close> is an object of \<open>w\<close> but for its parent. The copy
  with children keeps this true: a copy has the attributes of its source, and the values
  written to the copy of a child, \<^verbatim>\<open>matrix_parent_inverse\<close> and \<^verbatim>\<open>matrix_basis\<close>, are the
  child's own. So in the variant with children a placement adds the template with the
  location, the yaw and the scale of the placement, and with it objects that are objects
  of the scene but for their parent, which is one of the objects added; all of them are
  linked to the target collection.
\<close>

definition clones :: "world \<Rightarrow> world \<Rightarrow> bool" where
  "clones w w' \<longleftrightarrow>
     (\<forall>n ob. deref n w' = Some ob \<longrightarrow> (\<exists>t ot. deref t w = Some ot \<and> ob = ot\<lparr>parent := parent ob\<rparr>))"

lemma clonesD:
  "clones w w' \<Longrightarrow> deref n w' = Some ob \<Longrightarrow> \<exists>t ot. deref t w = Some ot \<and> ob = ot\<lparr>parent := parent ob\<rparr>"
  unfolding clones_def by blast

lemma clones_refl: "clones w w"
  unfolding clones_def by (intro allI impI) (metis obj.update_convs(2) obj.surjective obj.simps)


lemma obj_parent_same [simp]: "ob\<lparr>parent := parent ob\<rparr> = (ob::obj)"
  by simp

lemma clones_trans:
  assumes "clones w w1" and "clones w1 w2"
  shows "clones w w2"
  unfolding clones_def
proof (intro allI impI)
  fix n ob assume "deref n w2 = Some ob"
  from clonesD [OF assms(2) this] obtain t1 o1 where o1: "deref t1 w1 = Some o1"
    "ob = o1\<lparr>parent := parent ob\<rparr>" by blast
  from clonesD [OF assms(1) o1(1)] obtain t ot where ot: "deref t w = Some ot"
    "o1 = ot\<lparr>parent := parent o1\<rparr>" by blast
  have "ob = ot\<lparr>parent := parent ob\<rparr>"
    by (subst o1(2), subst ot(2)) simp
  with ot(1) show "\<exists>t ot. deref t w = Some ot \<and> ob = ot\<lparr>parent := parent ob\<rparr>" by blast
qed

lemma clones_same_objects: "objects w' = objects w \<Longrightarrow> clones w w'"
  using clones_refl [of w] by (simp add: clones_def deref_def)

lemma deref_obj_update:
  "deref n (obj_update m f w) = (if n = m then map_option f (deref n w) else deref n w)"
proof -
  have "\<And>xs. map_of (map (\<lambda>(k, ob). if k = m then (k, f ob) else (k, ob)) xs) n =
          (if n = m then map_option f (map_of xs n) else map_of xs n)"
  proof -
    fix xs :: "(obj_name \<times> obj) list"
    show "map_of (map (\<lambda>(k, ob). if k = m then (k, f ob) else (k, ob)) xs) n =
          (if n = m then map_option f (map_of xs n) else map_of xs n)"
      by (induction xs) auto
  qed
  then show ?thesis by (simp add: deref_def obj_update_def)
qed


lemma obj_copy_clones:
  assumes "obj_copy src w = (Inr new, w1)"
  shows "clones w w1"
  unfolding clones_def
proof (intro allI impI)
  fix n ob assume n: "deref n w1 = Some ob"
  from obj_copy_grows [OF assms] obtain os where os: "deref src w = Some os"
    and o1: "objects w1 = objects w @ [(new, os)]" by blast
  show "\<exists>t ot. deref t w = Some ot \<and> ob = ot\<lparr>parent := parent ob\<rparr>"
  proof (cases "deref n w")
    case None
    with n o1 have "ob = os" by (auto simp: deref_def map_add_def split: if_splits)
    with os show ?thesis by (intro exI [of _ src] exI [of _ os]) simp
  next
    case (Some o0)
    with n o1 have "ob = o0" by (simp add: deref_def map_add_def)
    with Some show ?thesis by (intro exI [of _ n] exI [of _ o0]) simp
  qed
qed

lemma copy_clones:
  "copy_with_children d src col w = (Inr new, w') \<Longrightarrow> clones w w'"
  "copy_children d cs new_obj col w = (Inr u, w') \<Longrightarrow> clones w w'"
proof (induction d src col w and d cs new_obj col w arbitrary: new w' and u w'
       rule: copy_with_children_copy_children.induct)
  case (1 src_obj target_collection w)
  then show ?case by simp
next
  case (2 d src_obj target_collection w)
  from "2.prems" obtain n1 w1 where copy: "obj_copy src_obj w = (Inr n1, w1)"
    by (auto split: prod.splits sum.splits)
  from "2.prems" copy obtain u2 w2 where link: "objects_link target_collection n1 w1 = (Inr u2, w2)"
    by (auto split: prod.splits sum.splits)
  from "2.prems" copy link obtain u3 where
    kids: "copy_children d (children src_obj w2) n1 target_collection w2 = (Inr u3, w')"
    by (auto split: prod.splits sum.splits)
  have c1: "clones w w1" by (rule obj_copy_clones [OF copy])
  have c2: "clones w1 w2"
    using objects_link_grows [OF link] by (intro clones_same_objects) simp
  have c3: "clones w2 w'" by (rule "2.IH" [OF copy [symmetric] refl link [symmetric] refl kids])
  show ?case by (rule clones_trans [OF clones_trans [OF c1 c2] c3])
next
  case (3 d new_obj target_collection w)
  then show ?case by (simp add: clones_refl)
next
  case (4 d child rest new_obj target_collection w)
  from "4.prems" obtain nc w1 where cp: "copy_with_children d child target_collection w = (Inr nc, w1)"
    by (auto split: prod.splits sum.splits)
  from "4.prems" cp obtain c where c: "deref child w1 = Some c"
    by (auto split: option.splits)
  let ?f = "\<lambda>ob. set_matrix_basis (matrix_basis c)
              (ob\<lparr>parent := Some new_obj, matrix_parent_inverse := matrix_parent_inverse c\<rparr>)"
  from "4.prems" cp c have more:
    "copy_children d rest new_obj target_collection (obj_update nc ?f w1) = (Inr u, w')"
    by simp
  have c1: "clones w w1" by (rule "4.IH"(1) [OF cp])
  from copy_shape(1) [OF cp] obtain oc r1 where oc: "deref child w = Some oc"
    and g1: "grows target_collection ((nc, oc) # r1) w w1"
    by blast
  have "deref child w1 = Some oc" by (rule extendsD [OF grows_extends [OF g1] oc])
  with c have coc: "c = oc" by simp
  have nc: "deref nc w1 = Some oc" by (rule grows_deref_new [OF g1])
  have c2: "clones w1 (obj_update nc ?f w1)"
    unfolding clones_def
  proof (intro allI impI)
    fix n ob assume n: "deref n (obj_update nc ?f w1) = Some ob"
    show "\<exists>t ot. deref t w1 = Some ot \<and> ob = ot\<lparr>parent := parent ob\<rparr>"
    proof (cases "n = nc")
      case True
      with n nc have "ob = ?f oc" by (simp add: deref_obj_update)
      then have "ob = oc\<lparr>parent := Some new_obj\<rparr>"
        by (simp add: coc set_matrix_basis_def matrix_basis_def)
      then have "ob = oc\<lparr>parent := parent ob\<rparr>" by simp
      with nc show ?thesis by blast
    next
      case False
      with n have "deref n w1 = Some ob" by (simp add: deref_obj_update)
      then show ?thesis by (intro exI [of _ n] exI [of _ ob]) simp
    qed
  qed
  have c3: "clones (obj_update nc ?f w1) w'"
    by (rule "4.IH"(2) [OF cp [symmetric] refl c more])
  show ?case by (rule clones_trans [OF clones_trans [OF c1 c2] c3])
qed


lemma replication_with_children:
  assumes res: "place_with_children h r src col loc w = (Inr (new, yaw, s), w')"
  shows "\<exists>os rest. deref src w = Some os \<and>
     grows col
       ((new, os\<lparr>location := loc,
                  rotation_euler :=
                    (fst (rotation_euler os), fst (snd (rotation_euler os)), radians yaw),
                  scale := (s, s, s)\<rparr>) # rest) w w' \<and>
     (\<forall>e \<in> set rest.
        (\<exists>p \<in> set (new # map fst rest). parent (snd e) = Some p) \<and>
        (\<exists>t ot. deref t w = Some ot \<and> snd e = ot\<lparr>parent := parent (snd e)\<rparr>))"
proof -
  from res obtain w1 where cp: "copy_with_children (recursion_limit h) src col w = (Inr new, w1)"
    by (auto simp: place_with_children_def uniform_def Let_def split: prod.splits sum.splits)
  from copy_shape(1) [OF cp] obtain os rest where os: "deref src w = Some os"
    and g1: "grows col ((new, os) # rest) w w1" and rng1: "rng w1 = rng w"
    and inn: "inner (insert new (fst ` set rest)) rest"
    by blast
  from g1 have fresh: "\<not> live new w" and nr: "new \<notin> fst ` set rest"
    by (auto simp: grows_def)
  let ?f1 = "\<lambda>ob. ob\<lparr>location := loc\<rparr>"
  let ?f2 = "\<lambda>ob. ob\<lparr>rotation_euler :=
                 (fst (rotation_euler ob), fst (snd (rotation_euler ob)), radians yaw)\<rparr>"
  let ?f3 = "\<lambda>ob. ob\<lparr>scale := (s, s, s)\<rparr>"
  from res cp rng1 have
    w': "w' = obj_update new ?f3
                   ((obj_update new ?f2 ((obj_update new ?f1 w1)\<lparr>rng := Suc (rng w)\<rparr>))
                      \<lparr>rng := Suc (Suc (rng w))\<rparr>)"
    by (auto simp: place_with_children_def uniform_def Let_def split: prod.splits)
  have g2: "grows col ((new, ?f1 os) # rest) w ((obj_update new ?f1 w1)\<lparr>rng := Suc (rng w)\<rparr>)"
    using grows_rng [OF grows_update [OF g1 fresh, of ?f1]] by (simp only: map_upd_head [OF nr])
  have g3: "grows col ((new, ?f2 (?f1 os)) # rest) w
              ((obj_update new ?f2 ((obj_update new ?f1 w1)\<lparr>rng := Suc (rng w)\<rparr>))
                 \<lparr>rng := Suc (Suc (rng w))\<rparr>)"
    using grows_rng [OF grows_update [OF g2 fresh, of ?f2]] by (simp only: map_upd_head [OF nr])
  have g4: "grows col ((new, ?f3 (?f2 (?f1 os))) # rest) w w'"
    unfolding w' using grows_update [OF g3 fresh, of ?f3] by (simp only: map_upd_head [OF nr])
  have rest: "\<forall>e \<in> set rest.
        (\<exists>p \<in> set (new # map fst rest). parent (snd e) = Some p) \<and>
        (\<exists>t ot. deref t w = Some ot \<and> snd e = ot\<lparr>parent := parent (snd e)\<rparr>)"
  proof
    fix e assume e: "e \<in> set rest"
    then have "e \<in> set ((new, os) # rest)" by simp
    from grows_deref_added [OF g1 this] have "deref (fst e) w1 = Some (snd e)" .
    from clonesD [OF copy_clones(1) [OF cp] this]
    have "\<exists>t ot. deref t w = Some ot \<and> snd e = ot\<lparr>parent := parent (snd e)\<rparr>" .
    moreover from inn e have "\<exists>p \<in> set (new # map fst rest). parent (snd e) = Some p"
      unfolding inner_def by auto
    ultimately show "(\<exists>p \<in> set (new # map fst rest). parent (snd e) = Some p) \<and>
        (\<exists>t ot. deref t w = Some ot \<and> snd e = ot\<lparr>parent := parent (snd e)\<rparr>)" by blast
  qed
  show ?thesis
    apply (rule exI [of _ os], rule exI [of _ rest])
    using os g4 rest by simp
qed

text \<open>
  C4 at a template with one child, \<^verbatim>\<open>tree\<close> with \<^verbatim>\<open>crown\<close>, one candidate accepted. The
  variant with children makes a copy of both and links both to the target collection;
  the copy of the child is the child with the copy of the template as its parent, all
  else as it was. The variant under \<^verbatim>\<open>scripts/\<close> copies the template object alone: the
  collection gets one object, and that object has no child.
\<close>

theorem children_not_copied_in_single:
  "children (''tree'', 0) world0 = [(''crown'', 0)] \<and>
   col_objects ''Generated_Trees'' (snd (scatter_run (host0 []) req1 world0)) =
     [(''tree'', 1), (''crown'', 1)] \<and>
   children (''tree'', 1) (snd (scatter_run (host0 []) req1 world0)) = [(''crown'', 1)] \<and>
   deref (''crown'', 1) (snd (scatter_run (host0 []) req1 world0)) =
     Some (crown_obj\<lparr>parent := Some (''tree'', 1)\<rparr>) \<and>
   col_objects ''Generated_Trees'' (snd (scatter_run_single (host0 []) req1 world0)) =
     [(''tree'', 1)] \<and>
   children (''tree'', 1) (snd (scatter_run_single (host0 []) req1 world0)) = []"
  by code_simp

end
